theory Spec2Isabelle
  imports
    Main
    "HOL-Library.List_Lexorder"
    "HOL-Library.Char_ord"
    "HOL-Library.Product_Lexorder"
    "HOL-Library.Multiset"
begin

section \<open>The giveaway bot: tables, selector, handlers and scheduler\<close>

text \<open>
  The bot keeps three tables in SQLite (\<^verbatim>\<open>giveaways\<close>, \<^verbatim>\<open>participants\<close>,
  \<^verbatim>\<open>winners\<close>) and talks to Telegram. The tables are lists of rows in insertion
  (rowid) order. JavaScript numbers that hold ids, counts and unix times are \<open>int\<close>;
  nullable TEXT and INTEGER columns are \<open>option\<close>; the 0/1 flag columns
  (\<^verbatim>\<open>ended\<close>, \<^verbatim>\<open>canceled\<close>, \<^verbatim>\<open>announced\<close>), which the code only ever
  writes as 0 (the column default) or 1, are \<open>bool\<close>.
  JavaScript runs one handler at a time, but a handler that awaits a call of the gateway
  gives way to the others until the call settles. The handlers are first written as the
  functions they are when nothing comes in between; the handlers that write to the store
  after an await are then split at it, and the bot as a whole runs the pieces in any
  order the event loop allows.
\<close>

subsection \<open>Rows\<close>

record giveaway_row =
  g_id :: int
  chat_id :: int
  message_id :: int
  prize :: string
  sponsor :: string
  winners :: int
  end_time :: int
  ended :: bool
  created_at :: int
  ended_at :: "int option"
  seed :: "string option"
  seed_hash :: "string option"
  canceled :: bool
  cancel_reason :: "string option"
  announced :: bool
  announced_at :: "int option"

record participant_row =
  p_giveaway_id :: int
  p_user_id :: int
  p_name :: string
  joined_at :: int

record winner_row =
  w_giveaway_id :: int
  w_user_id :: int
  w_name :: string

text \<open>The projection \<^verbatim>\<open>SELECT user_id, name\<close>, and the same object with the rank
  that \<^verbatim>\<open>pickWinnersDeterministic\<close> spreads into it.\<close>

record entrant =
  user_id :: int
  name :: string

record ranked = entrant +
  rank :: string

record db =
  giveaways :: "giveaway_row list"
  participants :: "participant_row list"
  winner_rows :: "winner_row list"

definition empty_db :: db where
  "empty_db = \<lparr>giveaways = [], participants = [], winner_rows = []\<rparr>"

subsection \<open>Configuration and the crypto library\<close>

text \<open>
  \<^verbatim>\<open>ADMINS\<close> comes from the environment. The two digests are Node's
  \<^verbatim>\<open>crypto\<close> library, taken as parameters: \<^verbatim>\<open>sha256Hex(input)\<close> and
  \<^verbatim>\<open>hmacSha256Hex(key, msg)\<close>, both returning lowercase hex text.
\<close>

record config =
  ADMINS :: "int list"
  sha256Hex :: "string \<Rightarrow> string"
  hmacSha256Hex :: "string \<Rightarrow> string \<Rightarrow> string"

definition isAdmin :: "config \<Rightarrow> int \<Rightarrow> bool" where
  "isAdmin cfg userId = (userId \<in> set (ADMINS cfg))"

datatype error = TypeError | StoreError

subsection \<open>Text helpers\<close>

definition esc_char :: "char \<Rightarrow> string" where
  "esc_char c =
     (if c = CHR ''&'' then ''&amp;''
      else if c = CHR ''<'' then ''&lt;''
      else if c = CHR ''>'' then ''&gt;''
      else if c = CHR 0x22 then ''&quot;''
      else [c])"

definition escHtml :: "string \<Rightarrow> string" where
  "escHtml s = concat (map esc_char s)"

text \<open>The JavaScript \<^verbatim>\<open>x || d\<close> on a nullable string: null and the empty string
  are falsy.\<close>

definition or_default :: "string option \<Rightarrow> string \<Rightarrow> string" where
  "or_default x d = (case x of None \<Rightarrow> d | Some v \<Rightarrow> if v = [] then d else v)"

text \<open>Template strings print an integer in decimal.\<close>

fun nat_digits :: "nat \<Rightarrow> string" where
  "nat_digits n =
     (if n < 10 then [''0123456789'' ! n]
      else nat_digits (n div 10) @ [''0123456789'' ! (n mod 10)])"

definition num_str :: "int \<Rightarrow> string" where
  "num_str i = (if i < 0 then CHR ''-'' # nat_digits (nat (- i)) else nat_digits (nat i))"

subsection \<open>The selector: \<^verbatim>\<open>pickWinnersDeterministic\<close>\<close>

text \<open>
  \<^verbatim>\<open>a.rank.localeCompare(b.rank)\<close> on two digests: both are 64 lowercase hex digits,
  where the collation order is the order of the code units. The result is negative, zero
  or positive.
\<close>

definition localeCompare :: "string \<Rightarrow> string \<Rightarrow> int" where
  "localeCompare a b = (if a < b then - 1 else if a = b then 0 else 1)"

definition compare_ranked :: "ranked \<Rightarrow> ranked \<Rightarrow> int" where
  "compare_ranked a b =
     (let c = localeCompare (rank a) (rank b)
      in if c \<noteq> 0 then c else user_id a - user_id b)"

text \<open>
  \<^verbatim>\<open>Array.prototype.sort(cmp)\<close> is a stable sort: an insertion sort that puts an
  element before the first one it does not exceed, working from the right, is one.
\<close>

fun insert_by :: "('a \<Rightarrow> 'a \<Rightarrow> int) \<Rightarrow> 'a \<Rightarrow> 'a list \<Rightarrow> 'a list" where
  "insert_by cmp x [] = [x]"
| "insert_by cmp x (y # ys) =
     (if cmp x y \<le> 0 then x # y # ys else y # insert_by cmp x ys)"

definition js_sort :: "('a \<Rightarrow> 'a \<Rightarrow> int) \<Rightarrow> 'a list \<Rightarrow> 'a list" where
  "js_sort cmp xs = foldr (insert_by cmp) xs []"

text \<open>\<^verbatim>\<open>xs.slice(0, e)\<close> for a whole number \<open>e\<close> (winner counts are whole numbers):
  a negative end counts from the end of the array.\<close>

definition js_slice0 :: "'a list \<Rightarrow> int \<Rightarrow> 'a list" where
  "js_slice0 xs e =
     (let len = int (length xs);
          fin = (if e < 0 then max (len + e) 0 else min e len)
      in take (nat fin) xs)"

definition rank_of :: "config \<Rightarrow> string \<Rightarrow> int \<Rightarrow> int \<Rightarrow> string" where
  "rank_of cfg sd gid uid = hmacSha256Hex cfg sd (num_str gid @ '':'' @ num_str uid)"

definition with_rank :: "config \<Rightarrow> string \<Rightarrow> int \<Rightarrow> entrant \<Rightarrow> ranked" where
  "with_rank cfg sd gid p =
     \<lparr>user_id = user_id p, name = name p, rank = rank_of cfg sd gid (user_id p)\<rparr>"

text \<open>
  \<^verbatim>\<open>crypto.createHmac("sha256", null)\<close> throws a TypeError, so a NULL seed fails at
  the first participant that is mapped; with no participant nothing is hashed.
\<close>

definition pickWinnersDeterministic ::
  "config \<Rightarrow> string option \<Rightarrow> int \<Rightarrow> entrant list \<Rightarrow> int \<Rightarrow> error + ranked list" where
  "pickWinnersDeterministic cfg sd gid ps k =
     (if ps = [] then Inr (js_slice0 [] (min k 0))
      else case sd of
        None \<Rightarrow> Inl TypeError
      | Some s \<Rightarrow>
          (let ranked = js_sort compare_ranked (map (with_rank cfg s gid) ps)
           in Inr (js_slice0 ranked (min k (int (length ranked))))))"

text \<open>
  The selector in the specification's words: sort by rank as a string ascending, ties by
  participant id ascending, and return the first \<open>min k |participants|\<close> entries.
\<close>

definition select_spec :: "config \<Rightarrow> string \<Rightarrow> int \<Rightarrow> entrant list \<Rightarrow> nat \<Rightarrow> ranked list" where
  "select_spec cfg sd gid ps k =
     take (min k (length ps))
       (sort_key (\<lambda>r. (rank r, user_id r)) (map (with_rank cfg sd gid) ps))"

subsection \<open>Queries and writes\<close>

text \<open>\<^verbatim>\<open>SELECT ... FROM giveaways WHERE id=?\<close> with \<^verbatim>\<open>.get\<close>: the first row, or
  undefined.\<close>

definition get_giveaway :: "db \<Rightarrow> int \<Rightarrow> giveaway_row option" where
  "get_giveaway s i = find (\<lambda>g. g_id g = i) (giveaways s)"

text \<open>\<^verbatim>\<open>UPDATE giveaways SET ... WHERE id=?\<close>: no other condition stands in any of the
  updates of the source.\<close>

definition update_giveaway :: "int \<Rightarrow> (giveaway_row \<Rightarrow> giveaway_row) \<Rightarrow> db \<Rightarrow> db" where
  "update_giveaway i f s =
     s\<lparr>giveaways := map (\<lambda>g. if g_id g = i then f g else g) (giveaways s)\<rparr>"

definition participants_of :: "db \<Rightarrow> int \<Rightarrow> entrant list" where
  "participants_of s i =
     map (\<lambda>p. \<lparr>user_id = p_user_id p, name = p_name p\<rparr>)
       (filter (\<lambda>p. p_giveaway_id p = i) (participants s))"

definition count_participants :: "db \<Rightarrow> int \<Rightarrow> nat" where
  "count_participants s i = length (filter (\<lambda>p. p_giveaway_id p = i) (participants s))"

text \<open>\<^verbatim>\<open>SELECT user_id,name FROM winners WHERE giveaway_id=? ORDER BY rowid ASC\<close>.\<close>

definition winners_of :: "db \<Rightarrow> int \<Rightarrow> entrant list" where
  "winners_of s i =
     map (\<lambda>w. \<lparr>user_id = w_user_id w, name = w_name w\<rparr>)
       (filter (\<lambda>w. w_giveaway_id w = i) (winner_rows s))"

definition insert_winner :: "int \<Rightarrow> ranked \<Rightarrow> db \<Rightarrow> db" where
  "insert_winner i w s =
     s\<lparr>winner_rows := winner_rows s @
        [\<lparr>w_giveaway_id = i, w_user_id = user_id w, w_name = name w\<rparr>]\<rparr>"

definition mark_ended :: "int \<Rightarrow> int \<Rightarrow> db \<Rightarrow> db" where
  "mark_ended now i = update_giveaway i (\<lambda>r. r\<lparr>ended := True, ended_at := Some now\<rparr>)"

definition mark_announced :: "int \<Rightarrow> int \<Rightarrow> db \<Rightarrow> db" where
  "mark_announced now i = update_giveaway i (\<lambda>r. r\<lparr>announced := True, announced_at := Some now\<rparr>)"

text \<open>
  \<^verbatim>\<open>db.transaction(fn)()\<close> of better-sqlite3: BEGIN, the statements of \<^verbatim>\<open>fn\<close> on a
  working copy, COMMIT; when a statement throws, ROLLBACK and the exception goes on to the
  caller. The fault is the environment's: \<open>Some i\<close> makes statement \<open>i\<close> throw, the
  COMMIT counting as the last one. \<open>run_stmts\<close> returns the working copy and whether
  every statement and the COMMIT went through.
\<close>

fun run_stmts :: "nat option \<Rightarrow> (db \<Rightarrow> db) list \<Rightarrow> db \<Rightarrow> db \<times> bool" where
  "run_stmts fault [] w = (w, fault \<noteq> Some 0)"
| "run_stmts fault (st # sts) w =
     (if fault = Some 0 then (w, False)
      else run_stmts (map_option (\<lambda>i. i - 1) fault) sts (st w))"

definition transaction :: "nat option \<Rightarrow> (db \<Rightarrow> db) list \<Rightarrow> db \<Rightarrow> error + db" where
  "transaction fault body s =
     (case run_stmts fault body s of
        (w, True) \<Rightarrow> Inr w
      | (w, False) \<Rightarrow> Inl StoreError)"

subsection \<open>Messages\<close>

text \<open>
  A message is the template that builds it with the values it interpolates; the labels,
  emoji and the time format (\<^verbatim>\<open>fmtUnix\<close>) are left out. The fixed replies are
  \<open>notice\<close>s.
\<close>

record ctx =
  from_id :: int
  first_name :: "string option"
  username :: "string option"
  chat_private :: bool

record proof_view =
  pv_id :: int
  pv_prize :: string
  pv_sponsor :: string
  pv_time :: int
  pv_commit :: string
  pv_seed :: string

datatype status = Canceled | Drawn | Running

record ginfo_view =
  gv_id :: int
  gv_prize :: string
  gv_sponsor :: string
  gv_winners :: int
  gv_count :: nat
  gv_time :: int
  gv_status :: status
  gv_announce :: "bool option"
  gv_cancel_reason :: "string option"
  gv_winner_list :: "(string \<times> int) list"

datatype notice =
    JoinNotExist | JoinCanceled | JoinClosed | JoinNotMember | JoinAlready | JoinOk
  | GinfoUsage | GinfoNotFound
  | ProofNotPrivate | ProofUsage | ProofNotFound
  | CancelUsage | CancelNotFound | CancelAlready | CancelEnded | CancelDone int
  | AnnounceNotPrivate | AnnounceUsage | AnnounceNotFound | AnnounceCanceled
  | AnnounceNotEnded | AnnounceNoWinners | AnnounceDone int | AnnounceFailed
  | CreateDone int int | CreateFailed

datatype content =
    GiveawayTextPublic string string int int nat
  | WinnersTextPublic "(string \<times> int) list" string string
  | CanceledTextPublic string string nat string
  | CancelNotice int string string
  | EmptyText int string string
  | ProofText proof_view
  | GinfoText ginfo_view "proof_view option"
  | Plain notice

text \<open>
  What a handler does to the outside: \<open>SendMessage chat text ok\<close> is an awaited
  \<^verbatim>\<open>telegram.sendMessage\<close> whose failure the handler sees (\<open>ok\<close> is the gateway's
  answer); \<open>SendBestEffort\<close> is a send whose failure is swallowed
  (\<^verbatim>\<open>.catch(() => {})\<close> or an empty \<^verbatim>\<open>catch {}\<close>); \<open>Reply\<close> and
  \<open>AnswerCbQuery\<close> go to the chat of the update being handled.
\<close>

datatype event =
    SendMessage int content bool
  | SendBestEffort int content
  | EditMessageText int int content
  | EditMessageReplyMarkup int int int bool
  | Reply ctx content
  | AnswerCbQuery ctx notice
  | LogError string int

text \<open>The placeholder of \<^verbatim>\<open>buildProofText\<close> and the default reason of a
  cancellation, in UTF-8 bytes.\<close>

definition no_reason :: string where
  "no_reason = ''Kh'' @ [CHR 0xC3, CHR 0xB4] @ ''ng c'' @ [CHR 0xC3, CHR 0xB3]"

definition seed_placeholder :: string where
  "seed_placeholder =
     ''Ch'' @ [CHR 0xC6, CHR 0xB0] @ ''a c'' @ [CHR 0xC3, CHR 0xB4] @ ''ng b'' @
     [CHR 0xE1, CHR 0xBB, CHR 0x91]"

definition buildGiveawayTextPublic :: "string \<Rightarrow> string \<Rightarrow> int \<Rightarrow> int \<Rightarrow> nat \<Rightarrow> content" where
  "buildGiveawayTextPublic pr sp w et cnt =
     GiveawayTextPublic (escHtml pr) (escHtml sp) w et cnt"

definition buildWinnersTextPublic :: "giveaway_row \<Rightarrow> entrant list \<Rightarrow> content" where
  "buildWinnersTextPublic g ws =
     WinnersTextPublic (map (\<lambda>w. (escHtml (name w), user_id w)) ws)
       (escHtml (prize g)) (escHtml (sponsor g))"

definition buildCanceledTextPublic :: "giveaway_row \<Rightarrow> string \<Rightarrow> nat \<Rightarrow> content" where
  "buildCanceledTextPublic g reason cnt =
     CanceledTextPublic (escHtml (prize g)) (escHtml (sponsor g)) cnt
       (escHtml (or_default (Some reason) no_reason))"

definition buildProofText :: "giveaway_row \<Rightarrow> proof_view" where
  "buildProofText g =
     \<lparr>pv_id = g_id g,
      pv_prize = escHtml (prize g),
      pv_sponsor = escHtml (sponsor g),
      pv_time = end_time g,
      pv_commit = escHtml (or_default (seed_hash g) ''N/A''),
      pv_seed = escHtml (if ended g \<and> \<not> canceled g then or_default (seed g) ''N/A''
                         else seed_placeholder)\<rparr>"

subsection \<open>Creation: \<^verbatim>\<open>createGiveawayAndPost\<close>\<close>

text \<open>AUTOINCREMENT: one more than the largest rowid; no row is ever deleted.\<close>

definition lastInsertRowid :: "db \<Rightarrow> int" where
  "lastInsertRowid s = fold max (map g_id (giveaways s)) 0 + 1"

text \<open>
  The environment gives the 32 random bytes of \<^verbatim>\<open>makeSeed\<close> as hex (\<open>sd\<close>), the
  clock, the answer of the group post (\<open>sent\<close>: the message id, or \<open>None\<close> when the
  send throws) and of the edit of its button.
\<close>

definition createGiveawayAndPost ::
  "config \<Rightarrow> ctx \<Rightarrow> int \<Rightarrow> int \<Rightarrow> int \<Rightarrow> string \<Rightarrow> string \<Rightarrow>
   string \<Rightarrow> int \<Rightarrow> int option \<Rightarrow> bool \<Rightarrow> db \<Rightarrow> db \<times> event list" where
  "createGiveawayAndPost cfg c targetGroupId w endUnix pr sp sd now sent edit_ok s =
     (let sh = sha256Hex cfg sd;
          text = buildGiveawayTextPublic pr sp w endUnix 0
      in case sent of
           None \<Rightarrow> (s, [SendMessage targetGroupId text False, Reply c (Plain CreateFailed)])
         | Some mid \<Rightarrow>
             (let gid = lastInsertRowid s;
                  row = \<lparr>g_id = gid, chat_id = targetGroupId, message_id = mid,
                         prize = pr, sponsor = sp, winners = w, end_time = endUnix,
                         ended = False, created_at = now, ended_at = None,
                         seed = Some sd, seed_hash = Some sh, canceled = False,
                         cancel_reason = None, announced = False, announced_at = None\<rparr>;
                  s' = s\<lparr>giveaways := giveaways s @ [row]\<rparr>
              in if edit_ok
                 then (s', [SendMessage targetGroupId text True,
                            EditMessageReplyMarkup targetGroupId mid gid True,
                            Reply c (Plain (CreateDone gid endUnix))])
                 else (s', [SendMessage targetGroupId text True,
                            EditMessageReplyMarkup targetGroupId mid gid False,
                            Reply c (Plain CreateFailed)])))"

subsection \<open>The join button\<close>

text \<open>The PRIMARY KEY \<open>(giveaway_id, user_id)\<close> makes the INSERT throw on a second row
  of the pair; the handler catches whatever the INSERT throws. \<open>join_action\<close> is the
  handler when no other handler runs while it awaits \<^verbatim>\<open>isGroupMember\<close>; its two
  pieces, before and after that await, are \<open>join_begin\<close> and \<open>join_finish\<close> below.\<close>

definition has_participant :: "db \<Rightarrow> int \<Rightarrow> int \<Rightarrow> bool" where
  "has_participant s gid uid =
     list_ex (\<lambda>p. p_giveaway_id p = gid \<and> p_user_id p = uid) (participants s)"

definition join_action :: "ctx \<Rightarrow> int \<Rightarrow> int \<Rightarrow> bool \<Rightarrow> db \<Rightarrow> db \<times> event list" where
  "join_action c gid now member_ok s =
     (case get_giveaway s gid of
        None \<Rightarrow> (s, [AnswerCbQuery c JoinNotExist])
      | Some g \<Rightarrow>
          if canceled g then (s, [AnswerCbQuery c JoinCanceled])
          else if ended g \<or> now \<ge> end_time g then (s, [AnswerCbQuery c JoinClosed])
          else if \<not> member_ok then (s, [AnswerCbQuery c JoinNotMember])
          else if has_participant s gid (from_id c) then (s, [AnswerCbQuery c JoinAlready])
          else
            (let s' = s\<lparr>participants := participants s @
                        [\<lparr>p_giveaway_id = gid, p_user_id = from_id c,
                          p_name = or_default (first_name c) (or_default (username c) ''User''),
                          joined_at = now\<rparr>]\<rparr>;
                 cnt = count_participants s' gid
             in (s', [EditMessageText (chat_id g) (message_id g)
                        (buildGiveawayTextPublic (prize g) (sponsor g) (winners g) (end_time g) cnt),
                      AnswerCbQuery c JoinOk])))"

subsection \<open>The command router: /ginfo, /proof, /cancel, /announce\<close>

text \<open>The handlers start where the router has read the id with \<^verbatim>\<open>Number(parts[1])\<close>;
  \<^verbatim>\<open>!gid\<close> is the id 0 (or no number). A sender who is no admin falls through.\<close>

definition ginfo_cmd :: "config \<Rightarrow> ctx \<Rightarrow> int \<Rightarrow> db \<Rightarrow> db \<times> event list" where
  "ginfo_cmd cfg c gid s =
     (if \<not> isAdmin cfg (from_id c) then (s, [])
      else if gid = 0 then (s, [Reply c (Plain GinfoUsage)])
      else case get_giveaway s gid of
        None \<Rightarrow> (s, [Reply c (Plain GinfoNotFound)])
      | Some g \<Rightarrow>
          (let view =
             \<lparr>gv_id = gid, gv_prize = escHtml (prize g), gv_sponsor = escHtml (sponsor g),
              gv_winners = winners g, gv_count = count_participants s gid,
              gv_time = end_time g,
              gv_status = (if canceled g then Canceled else if ended g then Drawn else Running),
              gv_announce = (if \<not> canceled g \<and> ended g then Some (announced g) else None),
              gv_cancel_reason =
                (if canceled g then Some (escHtml (or_default (cancel_reason g) no_reason))
                 else None),
              gv_winner_list = map (\<lambda>w. (escHtml (name w), user_id w)) (winners_of s gid)\<rparr>
           in (s, [Reply c (GinfoText view
                     (if chat_private c then Some (buildProofText g) else None))])))"

definition proof_cmd :: "config \<Rightarrow> ctx \<Rightarrow> int \<Rightarrow> db \<Rightarrow> db \<times> event list" where
  "proof_cmd cfg c gid s =
     (if \<not> isAdmin cfg (from_id c) then (s, [])
      else if \<not> chat_private c then (s, [Reply c (Plain ProofNotPrivate)])
      else if gid = 0 then (s, [Reply c (Plain ProofUsage)])
      else case get_giveaway s gid of
        None \<Rightarrow> (s, [Reply c (Plain ProofNotFound)])
      | Some g \<Rightarrow> (s, [Reply c (ProofText (buildProofText g))]))"

definition cancel_cmd :: "config \<Rightarrow> ctx \<Rightarrow> int \<Rightarrow> string \<Rightarrow> int \<Rightarrow> db \<Rightarrow> db \<times> event list" where
  "cancel_cmd cfg c gid reason now s =
     (if \<not> isAdmin cfg (from_id c) then (s, [])
      else if gid = 0 then (s, [Reply c (Plain CancelUsage)])
      else case get_giveaway s gid of
        None \<Rightarrow> (s, [Reply c (Plain CancelNotFound)])
      | Some g \<Rightarrow>
          if canceled g then (s, [Reply c (Plain CancelAlready)])
          else if ended g then (s, [Reply c (Plain CancelEnded)])
          else
            (let s' = update_giveaway gid
                        (\<lambda>r. r\<lparr>canceled := True, ended := True, ended_at := Some now,
                               cancel_reason := Some reason\<rparr>) s;
                 cnt = count_participants s' gid
             in (s', [EditMessageText (chat_id g) (message_id g)
                        (buildCanceledTextPublic g reason cnt),
                      SendBestEffort (chat_id g)
                        (CancelNotice gid (escHtml (prize g)) (escHtml reason)),
                      Reply c (Plain (CancelDone gid))])))"

text \<open>/announce when no other handler runs while its post is awaited; its pieces before
  and after that await are \<open>announce_cmd_begin\<close> and \<open>announce_cmd_finish\<close> below.\<close>

definition announce_cmd :: "config \<Rightarrow> ctx \<Rightarrow> int \<Rightarrow> int \<Rightarrow> bool \<Rightarrow> db \<Rightarrow> db \<times> event list" where
  "announce_cmd cfg c gid now ok s =
     (if \<not> isAdmin cfg (from_id c) then (s, [])
      else if \<not> chat_private c then (s, [Reply c (Plain AnnounceNotPrivate)])
      else if gid = 0 then (s, [Reply c (Plain AnnounceUsage)])
      else case get_giveaway s gid of
        None \<Rightarrow> (s, [Reply c (Plain AnnounceNotFound)])
      | Some g \<Rightarrow>
          if canceled g then (s, [Reply c (Plain AnnounceCanceled)])
          else if \<not> ended g then (s, [Reply c (Plain AnnounceNotEnded)])
          else
            (let ws = winners_of s gid
             in if ws = [] then (s, [Reply c (Plain AnnounceNoWinners)])
                else if ok
                then (mark_announced now gid s,
                      SendMessage (chat_id g) (buildWinnersTextPublic g ws) True #
                      map (\<lambda>a. SendBestEffort a (ProofText (buildProofText g))) (ADMINS cfg) @
                      [Reply c (Plain (AnnounceDone gid))])
                else (s, [SendMessage (chat_id g) (buildWinnersTextPublic g ws) False,
                          LogError ''MANUAL_ANNOUNCE_FAIL'' gid,
                          Reply c (Plain AnnounceFailed)])))"

subsection \<open>The scheduler: \<^verbatim>\<open>drawAndAnnounce\<close>\<close>

text \<open>
  What a tick gets from outside: for each giveaway it handles, whether the awaited
  publish resolves, and the fault of its transaction.
\<close>

record tick_env =
  send_ok :: "int \<Rightarrow> bool"
  tx_fault :: "int \<Rightarrow> nat option"

text \<open>The announce half of the loop body: the winners are read back from the table.\<close>

definition announce_from_db ::
  "config \<Rightarrow> tick_env \<Rightarrow> int \<Rightarrow> giveaway_row \<Rightarrow> db \<Rightarrow> db \<times> event list" where
  "announce_from_db cfg env now g s =
     (let ws = winners_of s (g_id g)
      in if ws = [] then (s, [LogError ''AUTO_ANNOUNCE_NO_WINNERS_IN_DB'' (g_id g)])
         else case get_giveaway s (g_id g) of
           None \<Rightarrow> (s, [LogError ''AUTO_ANNOUNCE_FAIL'' (g_id g)])
         | Some fresh \<Rightarrow>
             if send_ok env (g_id g)
             then (mark_announced now (g_id g) s,
                   SendMessage (chat_id fresh) (buildWinnersTextPublic fresh ws) True #
                   map (\<lambda>a. SendBestEffort a (ProofText (buildProofText fresh))) (ADMINS cfg))
             else (s, [SendMessage (chat_id fresh) (buildWinnersTextPublic fresh ws) False,
                       LogError ''AUTO_ANNOUNCE_FAIL'' (g_id g)]))"

text \<open>The branch of a due giveaway that nobody joined. The row is read back for the
  proof; were it gone, \<^verbatim>\<open>buildProofText(undefined)\<close> would throw at the first admin.\<close>

definition draw_empty ::
  "config \<Rightarrow> tick_env \<Rightarrow> int \<Rightarrow> giveaway_row \<Rightarrow> db \<Rightarrow> db \<times> event list" where
  "draw_empty cfg env now g s =
     (let s1 = mark_ended now (g_id g) s;
          emptyText = EmptyText (g_id g) (escHtml (prize g)) (escHtml (sponsor g))
      in if send_ok env (g_id g)
         then (let s2 = mark_announced now (g_id g) s1
               in case get_giveaway s2 (g_id g) of
                    None \<Rightarrow>
                      (s2, SendMessage (chat_id g) emptyText True #
                           (if ADMINS cfg = [] then []
                            else [LogError ''AUTO_ANNOUNCE_FAIL'' (g_id g)]))
                  | Some fresh \<Rightarrow>
                      (s2, SendMessage (chat_id g) emptyText True #
                           map (\<lambda>a. SendBestEffort a (ProofText (buildProofText fresh)))
                             (ADMINS cfg)))
         else (s1, [SendMessage (chat_id g) emptyText False,
                    LogError ''AUTO_ANNOUNCE_FAIL'' (g_id g)]))"

text \<open>The draw of a giveaway with participants: the selector, then the winners and the
  \<^verbatim>\<open>ended\<close> flag in one transaction.\<close>

definition draw_winners ::
  "config \<Rightarrow> tick_env \<Rightarrow> int \<Rightarrow> giveaway_row \<Rightarrow> entrant list \<Rightarrow> db \<Rightarrow> error + db" where
  "draw_winners cfg env now g ps s =
     (case pickWinnersDeterministic cfg (seed g) (g_id g) ps (winners g) of
        Inl e \<Rightarrow> Inl e
      | Inr picked \<Rightarrow>
          transaction (tx_fault env (g_id g))
            (map (insert_winner (g_id g)) picked @ [mark_ended now (g_id g)]) s)"

text \<open>The body of the loop, for one row \<open>g\<close> of the \<^verbatim>\<open>pending\<close> query, then the loop
  and the tick, all three when no other handler runs while the posts are awaited. The
  pieces of the body before and after its await are \<open>process_begin\<close> and
  \<open>process_finish\<close> below, and \<open>tick_loop\<close> is the loop as far as its next await.\<close>

definition process_one ::
  "config \<Rightarrow> tick_env \<Rightarrow> int \<Rightarrow> giveaway_row \<Rightarrow> db \<Rightarrow> db \<times> event list" where
  "process_one cfg env now g s =
     (if \<not> ended g
      then (let ps = participants_of s (g_id g)
            in if ps = [] then draw_empty cfg env now g s
               else case draw_winners cfg env now g ps s of
                      Inl e \<Rightarrow> (s, [LogError ''AUTO_ANNOUNCE_FAIL'' (g_id g)])
                    | Inr s1 \<Rightarrow> announce_from_db cfg env now g s1)
      else announce_from_db cfg env now g s)"

fun process_all ::
  "config \<Rightarrow> tick_env \<Rightarrow> int \<Rightarrow> giveaway_row list \<Rightarrow> db \<Rightarrow> db \<times> event list" where
  "process_all cfg env now [] s = (s, [])"
| "process_all cfg env now (g # gs) s =
     (let (s1, e1) = process_one cfg env now g s;
          (s2, e2) = process_all cfg env now gs s1
      in (s2, e1 @ e2))"

definition pending :: "int \<Rightarrow> db \<Rightarrow> giveaway_row list" where
  "pending now s =
     filter (\<lambda>g. \<not> canceled g \<and> end_time g \<le> now \<and> \<not> announced g) (giveaways s)"

definition drawAndAnnounce :: "config \<Rightarrow> tick_env \<Rightarrow> int \<Rightarrow> db \<Rightarrow> db \<times> event list" where
  "drawAndAnnounce cfg env now s = process_all cfg env now (pending now s) s"

subsection \<open>The handlers between their awaits\<close>

text \<open>
  The awaits after which a handler still writes to the store:
  \<^item> the join button awaits \<^verbatim>\<open>isGroupMember\<close> between its tests of the giveaway and
    its INSERT;
  \<^item> /announce awaits the publish between its tests and its UPDATE;
  \<^item> the scheduler awaits the publish of each giveaway, inside the loop over the rows
    that its query returned when the tick began.
  /cancel reads, tests and writes before its first await; \<^verbatim>\<open>createGiveawayAndPost\<close>
  touches the store only in its INSERT, after the post; /ginfo and /proof only read. Those
  stay one step each.
\<close>

text \<open>What an iteration of the scheduler's loop has at hand while its publish is awaited:
  nothing more for the notice of a giveaway without participants; the row and the winners
  just read back for the other.\<close>

datatype awaiting = AwaitEmpty | AwaitWinners giveaway_row "entrant list"

definition announce_begin :: "giveaway_row \<Rightarrow> db \<Rightarrow> event list \<times> awaiting option" where
  "announce_begin g s =
     (let ws = winners_of s (g_id g)
      in if ws = [] then ([LogError ''AUTO_ANNOUNCE_NO_WINNERS_IN_DB'' (g_id g)], None)
         else case get_giveaway s (g_id g) of
           None \<Rightarrow> ([LogError ''AUTO_ANNOUNCE_FAIL'' (g_id g)], None)
         | Some fresh \<Rightarrow> ([], Some (AwaitWinners fresh ws)))"

text \<open>The loop body up to its await (or to its end, when it does not publish).\<close>

definition process_begin ::
  "config \<Rightarrow> tick_env \<Rightarrow> int \<Rightarrow> giveaway_row \<Rightarrow> db \<Rightarrow> db \<times> event list \<times> awaiting option" where
  "process_begin cfg env now g s =
     (if \<not> ended g
      then (let ps = participants_of s (g_id g)
            in if ps = [] then (mark_ended now (g_id g) s, [], Some AwaitEmpty)
               else case draw_winners cfg env now g ps s of
                      Inl e \<Rightarrow> (s, [LogError ''AUTO_ANNOUNCE_FAIL'' (g_id g)], None)
                    | Inr s1 \<Rightarrow> (s1, announce_begin g s1))
      else (s, announce_begin g s))"

text \<open>The loop body from the settled publish on, on the store as it is by then.\<close>

definition process_finish ::
  "config \<Rightarrow> tick_env \<Rightarrow> int \<Rightarrow> giveaway_row \<Rightarrow> awaiting \<Rightarrow> db \<Rightarrow> db \<times> event list" where
  "process_finish cfg env now g a s =
     (case a of
        AwaitEmpty \<Rightarrow>
          (let emptyText = EmptyText (g_id g) (escHtml (prize g)) (escHtml (sponsor g))
           in if send_ok env (g_id g)
              then (let s2 = mark_announced now (g_id g) s
                    in case get_giveaway s2 (g_id g) of
                         None \<Rightarrow>
                           (s2, SendMessage (chat_id g) emptyText True #
                                (if ADMINS cfg = [] then []
                                 else [LogError ''AUTO_ANNOUNCE_FAIL'' (g_id g)]))
                       | Some fresh \<Rightarrow>
                           (s2, SendMessage (chat_id g) emptyText True #
                                map (\<lambda>a. SendBestEffort a (ProofText (buildProofText fresh)))
                                  (ADMINS cfg)))
              else (s, [SendMessage (chat_id g) emptyText False,
                        LogError ''AUTO_ANNOUNCE_FAIL'' (g_id g)]))
      | AwaitWinners fresh ws \<Rightarrow>
          if send_ok env (g_id g)
          then (mark_announced now (g_id g) s,
                SendMessage (chat_id fresh) (buildWinnersTextPublic fresh ws) True #
                map (\<lambda>a. SendBestEffort a (ProofText (buildProofText fresh))) (ADMINS cfg))
          else (s, [SendMessage (chat_id fresh) (buildWinnersTextPublic fresh ws) False,
                    LogError ''AUTO_ANNOUNCE_FAIL'' (g_id g)]))"

text \<open>The join button up to \<^verbatim>\<open>await isGroupMember\<close>, and from its answer on: the INSERT
  has no condition on the giveaway.\<close>

definition join_begin :: "ctx \<Rightarrow> int \<Rightarrow> int \<Rightarrow> db \<Rightarrow> event list + giveaway_row" where
  "join_begin c gid now s =
     (case get_giveaway s gid of
        None \<Rightarrow> Inl [AnswerCbQuery c JoinNotExist]
      | Some g \<Rightarrow>
          if canceled g then Inl [AnswerCbQuery c JoinCanceled]
          else if ended g \<or> now \<ge> end_time g then Inl [AnswerCbQuery c JoinClosed]
          else Inr g)"

definition join_finish ::
  "ctx \<Rightarrow> int \<Rightarrow> giveaway_row \<Rightarrow> int \<Rightarrow> bool \<Rightarrow> db \<Rightarrow> db \<times> event list" where
  "join_finish c gid g now member_ok s =
     (if \<not> member_ok then (s, [AnswerCbQuery c JoinNotMember])
      else if has_participant s gid (from_id c) then (s, [AnswerCbQuery c JoinAlready])
      else
        (let s' = s\<lparr>participants := participants s @
                    [\<lparr>p_giveaway_id = gid, p_user_id = from_id c,
                      p_name = or_default (first_name c) (or_default (username c) ''User''),
                      joined_at = now\<rparr>]\<rparr>;
             cnt = count_participants s' gid
         in (s', [EditMessageText (chat_id g) (message_id g)
                    (buildGiveawayTextPublic (prize g) (sponsor g) (winners g) (end_time g) cnt),
                  AnswerCbQuery c JoinOk])))"

text \<open>/announce up to its awaited publish, and from its answer on: the UPDATE has no
  condition but the id, and its time is read after the await.\<close>

definition announce_cmd_begin ::
  "config \<Rightarrow> ctx \<Rightarrow> int \<Rightarrow> db \<Rightarrow> event list + giveaway_row \<times> entrant list" where
  "announce_cmd_begin cfg c gid s =
     (if \<not> isAdmin cfg (from_id c) then Inl []
      else if \<not> chat_private c then Inl [Reply c (Plain AnnounceNotPrivate)]
      else if gid = 0 then Inl [Reply c (Plain AnnounceUsage)]
      else case get_giveaway s gid of
        None \<Rightarrow> Inl [Reply c (Plain AnnounceNotFound)]
      | Some g \<Rightarrow>
          if canceled g then Inl [Reply c (Plain AnnounceCanceled)]
          else if \<not> ended g then Inl [Reply c (Plain AnnounceNotEnded)]
          else (let ws = winners_of s gid
                in if ws = [] then Inl [Reply c (Plain AnnounceNoWinners)]
                   else Inr (g, ws)))"

definition announce_cmd_finish ::
  "config \<Rightarrow> ctx \<Rightarrow> int \<Rightarrow> giveaway_row \<Rightarrow> entrant list \<Rightarrow> int \<Rightarrow> bool \<Rightarrow> db \<Rightarrow>
   db \<times> event list" where
  "announce_cmd_finish cfg c gid g ws now ok s =
     (if ok
      then (mark_announced now gid s,
            SendMessage (chat_id g) (buildWinnersTextPublic g ws) True #
            map (\<lambda>a. SendBestEffort a (ProofText (buildProofText g))) (ADMINS cfg) @
            [Reply c (Plain (AnnounceDone gid))])
      else (s, [SendMessage (chat_id g) (buildWinnersTextPublic g ws) False,
                LogError ''MANUAL_ANNOUNCE_FAIL'' gid,
                Reply c (Plain AnnounceFailed)]))"

subsection \<open>The bot as a whole\<close>

text \<open>
  An operation is an update or a timer tick together with what the outside will answer
  to it: the gateway's answers, the clock, the random seed, the fault of a transaction.
  \<open>step\<close> is the handler of an operation when nothing comes in between.
\<close>

datatype op =
    Create ctx int int int string string string int "int option" bool
  | Join ctx int int bool
  | Ginfo ctx int
  | Proof ctx int
  | Cancel ctx int string int
  | Announce ctx int int bool
  | Tick tick_env int

fun step :: "config \<Rightarrow> op \<Rightarrow> db \<Rightarrow> db \<times> event list" where
  "step cfg (Create c tg w e pr sp sd now sent edit_ok) s =
     createGiveawayAndPost cfg c tg w e pr sp sd now sent edit_ok s"
| "step cfg (Join c gid now member_ok) s = join_action c gid now member_ok s"
| "step cfg (Ginfo c gid) s = ginfo_cmd cfg c gid s"
| "step cfg (Proof c gid) s = proof_cmd cfg c gid s"
| "step cfg (Cancel c gid reason now) s = cancel_cmd cfg c gid reason now s"
| "step cfg (Announce c gid now ok) s = announce_cmd cfg c gid now ok s"
| "step cfg (Tick env now) s = drawAndAnnounce cfg env now s"

text \<open>
  A handler that waits for its call to settle: a tick with the row whose publish it
  awaits and the rows of its query still to come, a join with the giveaway it tested, an
  /announce with the row and winners it read.
\<close>

datatype task =
    TickTask tick_env int giveaway_row awaiting "giveaway_row list"
  | JoinTask ctx int giveaway_row int bool
  | AnnounceTask ctx int giveaway_row "entrant list" int bool

record sys =
  store :: db
  tasks :: "task list"

definition suspend :: "task option \<Rightarrow> task list \<Rightarrow> task list" where
  "suspend t ts = (case t of None \<Rightarrow> ts | Some k \<Rightarrow> ts @ [k])"

text \<open>The scheduler's loop over the rows of its query, as far as the next await: the rows
  are those read when the tick began, the store is the one of the moment.\<close>

fun tick_loop ::
  "config \<Rightarrow> tick_env \<Rightarrow> int \<Rightarrow> giveaway_row list \<Rightarrow> db \<Rightarrow> db \<times> event list \<times> task option" where
  "tick_loop cfg env now [] s = (s, [], None)"
| "tick_loop cfg env now (g # gs) s =
     (case process_begin cfg env now g s of
        (s1, e1, Some a) \<Rightarrow> (s1, e1, Some (TickTask env now g a gs))
      | (s1, e1, None) \<Rightarrow>
          (case tick_loop cfg env now gs s1 of (s2, e2, t) \<Rightarrow> (s2, e1 @ e2, t)))"

fun resume :: "config \<Rightarrow> task \<Rightarrow> sys \<Rightarrow> sys \<times> event list" where
  "resume cfg (TickTask env now g a gs) z =
     (case process_finish cfg env now g a (store z) of
        (s1, e1) \<Rightarrow>
          (case tick_loop cfg env now gs s1 of
             (s2, e2, t) \<Rightarrow> (\<lparr>store = s2, tasks = suspend t (tasks z)\<rparr>, e1 @ e2)))"
| "resume cfg (JoinTask c gid g now member_ok) z =
     (case join_finish c gid g now member_ok (store z) of
        (s1, e1) \<Rightarrow> (z\<lparr>store := s1\<rparr>, e1))"
| "resume cfg (AnnounceTask c gid g ws now ok) z =
     (case announce_cmd_finish cfg c gid g ws now ok (store z) of
        (s1, e1) \<Rightarrow> (z\<lparr>store := s1\<rparr>, e1))"

text \<open>
  What the event loop does next: an operation comes in and its handler runs to its first
  await (or to its end), or the call of the waiting handler number \<open>n\<close> settles and it
  runs on to its next await (or to its end).
\<close>

datatype action = Start op | Resume nat

fun act :: "config \<Rightarrow> action \<Rightarrow> sys \<Rightarrow> sys \<times> event list" where
  "act cfg (Start (Join c gid now member_ok)) z =
     (case join_begin c gid now (store z) of
        Inl evs \<Rightarrow> (z, evs)
      | Inr g \<Rightarrow> (z\<lparr>tasks := tasks z @ [JoinTask c gid g now member_ok]\<rparr>, []))"
| "act cfg (Start (Announce c gid now ok)) z =
     (case announce_cmd_begin cfg c gid (store z) of
        Inl evs \<Rightarrow> (z, evs)
      | Inr (g, ws) \<Rightarrow> (z\<lparr>tasks := tasks z @ [AnnounceTask c gid g ws now ok]\<rparr>, []))"
| "act cfg (Start (Tick env now)) z =
     (case tick_loop cfg env now (pending now (store z)) (store z) of
        (s1, e1, t) \<Rightarrow> (\<lparr>store = s1, tasks = suspend t (tasks z)\<rparr>, e1))"
| "act cfg (Start x) z = (case step cfg x (store z) of (s1, e1) \<Rightarrow> (z\<lparr>store := s1\<rparr>, e1))"
| "act cfg (Resume n) z =
     (if n < length (tasks z)
      then resume cfg (tasks z ! n) (z\<lparr>tasks := take n (tasks z) @ drop (Suc n) (tasks z)\<rparr>)
      else (z, []))"

fun exec :: "config \<Rightarrow> action list \<Rightarrow> sys \<Rightarrow> sys" where
  "exec cfg [] z = z"
| "exec cfg (a # as) z = exec cfg as (fst (act cfg a z))"

text \<open>The store after a run of the bot from a store with no handler waiting.\<close>

definition run :: "config \<Rightarrow> action list \<Rightarrow> db \<Rightarrow> db" where
  "run cfg as s = store (exec cfg as \<lparr>store = s, tasks = []\<rparr>)"

subsection \<open>A small instance\<close>

text \<open>Stand-ins for the digests, and a few rows, to run the definitions on.\<close>

definition demo_cfg :: config where
  "demo_cfg =
     \<lparr>ADMINS = [7], sha256Hex = (\<lambda>s. ''#'' @ s), hmacSha256Hex = (\<lambda>k m. rev m @ k)\<rparr>"

definition demo_entrants :: "entrant list" where
  "demo_entrants =
     [\<lparr>user_id = 12, name = ''A''\<rparr>, \<lparr>user_id = 21, name = ''B''\<rparr>,
      \<lparr>user_id = 3, name = ''C''\<rparr>]"

definition demo_admin :: ctx where
  "demo_admin = \<lparr>from_id = 7, first_name = Some ''Op'', username = None, chat_private = True\<rparr>"

definition demo_user_a :: ctx where
  "demo_user_a = \<lparr>from_id = 12, first_name = Some ''A'', username = None, chat_private = False\<rparr>"

definition demo_user_b :: ctx where
  "demo_user_b = \<lparr>from_id = 21, first_name = None, username = Some ''B'', chat_private = False\<rparr>"

definition demo_open :: "action list" where
  "demo_open =
     [Start (Create demo_admin (- 100) 1 50 ''prize'' ''sponsor'' ''ab'' 10 (Some 900) True),
      Start (Join demo_user_a 1 20 True), Resume 0,
      Start (Join demo_user_b 1 21 True), Resume 0]"

definition demo_env :: "bool \<Rightarrow> nat option \<Rightarrow> tick_env" where
  "demo_env ok fault = \<lparr>send_ok = (\<lambda>_. ok), tx_fault = (\<lambda>_. fault)\<rparr>"

definition demo_row :: giveaway_row where
  "demo_row =
     \<lparr>g_id = 1, chat_id = - 100, message_id = 900, prize = ''prize'', sponsor = ''sponsor'',
      winners = 1, end_time = 50, ended = False, created_at = 10, ended_at = None,
      seed = Some ''ab'', seed_hash = Some ''#ab'', canceled = False, cancel_reason = None,
      announced = False, announced_at = None\<rparr>"

definition demo_announced :: "action list" where
  "demo_announced = demo_open @ [Start (Tick (demo_env True None) 60), Resume 0]"

definition demo_lonely :: "action list" where
  "demo_lonely =
     [Start (Create demo_admin (- 100) 1 50 ''prize'' ''sponsor'' ''ab'' 10 (Some 900) True)]"

text \<open>A third user, a second giveaway, and a gateway that takes the post of giveaway 1 and
  rejects every other.\<close>

definition demo_user_c :: ctx where
  "demo_user_c = \<lparr>from_id = 3, first_name = Some ''C'', username = None, chat_private = False\<rparr>"

definition demo_row2 :: giveaway_row where
  "demo_row2 =
     \<lparr>g_id = 2, chat_id = - 100, message_id = 901, prize = ''gift'', sponsor = ''sponsor'',
      winners = 1, end_time = 55, ended = False, created_at = 11, ended_at = None,
      seed = Some ''cd'', seed_hash = Some ''#cd'', canceled = False, cancel_reason = None,
      announced = False, announced_at = None\<rparr>"

definition demo_two :: "action list" where
  "demo_two =
     [Start (Create demo_admin (- 100) 1 50 ''prize'' ''sponsor'' ''ab'' 10 (Some 900) True),
      Start (Create demo_admin (- 100) 1 55 ''gift'' ''sponsor'' ''cd'' 11 (Some 901) True),
      Start (Join demo_user_a 1 20 True), Resume 0,
      Start (Join demo_user_b 2 21 True), Resume 0]"

definition demo_env_first :: tick_env where
  "demo_env_first = \<lparr>send_ok = (\<lambda>i. i = 1), tx_fault = (\<lambda>_. None)\<rparr>"

text \<open>Runs in which a handler comes in while another one waits: a /cancel of giveaway 2
  while the tick awaits its post for giveaway 1; a second tick while the first awaits its
  post for giveaway 1, the first then going on to giveaway 2, whose post is rejected; a
  /cancel while a join awaits the answer to its membership question.\<close>

definition demo_cancel_in_tick :: "action list" where
  "demo_cancel_in_tick =
     demo_two @ [Start (Tick (demo_env True None) 60), Start (Cancel demo_admin 2 ''late'' 61)]"

definition demo_overlap :: "action list" where
  "demo_overlap =
     demo_two @ [Start (Tick demo_env_first 60), Start (Tick (demo_env True None) 90),
                 Resume 0, Resume 1]"

definition demo_join_in_flight :: "action list" where
  "demo_join_in_flight =
     demo_open @ [Start (Join demo_user_c 1 49 True), Start (Cancel demo_admin 1 ''late'' 49)]"

subsection \<open>Vocabulary of the proofs\<close>

text \<open>
  The definitions below are not code of the bot: they name what the proofs talk about.
  \<open>add_winners\<close> is the effect of the INSERTs of a committed draw, \<open>tx_ok\<close> says that
  the fault lies beyond the last statement of a transaction of \<open>n\<close> statements (or that
  there is none), \<open>same_at\<close> that two stores show the same giveaway, winners and
  participants under one id, \<open>due\<close> is the WHERE clause of the scheduler's query.
  \<open>db_inv\<close> is the invariant of the stores the bot can reach, \<open>sys_inv\<close> adds that the
  handlers in waiting hold rows of stored giveaways; \<open>seed_at\<close> is the seed and its hash
  as stored under an id. \<open>event_proof\<close> is the proof view that an outgoing message
  carries, if any, and \<open>private_to_operator\<close> says that a message goes to the private
  chat of an admin: a reply in a private chat to a sender who is an admin, or a send to
  the chat id of an admin.
\<close>

definition to_winner_row :: "int \<Rightarrow> ranked \<Rightarrow> winner_row" where
  "to_winner_row i w = \<lparr>w_giveaway_id = i, w_user_id = user_id w, w_name = name w\<rparr>"

definition add_winners :: "int \<Rightarrow> ranked list \<Rightarrow> db \<Rightarrow> db" where
  "add_winners i picked s = s\<lparr>winner_rows := winner_rows s @ map (to_winner_row i) picked\<rparr>"

definition tx_ok :: "nat option \<Rightarrow> nat \<Rightarrow> bool" where
  "tx_ok fault n = (case fault of None \<Rightarrow> True | Some i \<Rightarrow> n < i)"

definition same_at :: "db \<Rightarrow> db \<Rightarrow> int \<Rightarrow> bool" where
  "same_at s t i \<longleftrightarrow>
     get_giveaway s i = get_giveaway t i \<and> winners_of s i = winners_of t i \<and>
     participants_of s i = participants_of t i"

definition due :: "int \<Rightarrow> giveaway_row \<Rightarrow> bool" where
  "due now g \<longleftrightarrow> \<not> canceled g \<and> end_time g \<le> now \<and> \<not> announced g"

definition row_inv :: "config \<Rightarrow> giveaway_row \<Rightarrow> bool" where
  "row_inv cfg g \<longleftrightarrow> seed g \<noteq> None \<and> seed_hash g = map_option (sha256Hex cfg) (seed g)"

definition db_inv :: "config \<Rightarrow> db \<Rightarrow> bool" where
  "db_inv cfg s \<longleftrightarrow>
     distinct (map g_id (giveaways s)) \<and>
     list_all (row_inv cfg) (giveaways s) \<and>
     list_all (\<lambda>p. list_ex (\<lambda>g. g_id g = p_giveaway_id p) (giveaways s)) (participants s) \<and>
     list_all (\<lambda>w. list_ex (\<lambda>g. g_id g = w_giveaway_id w \<and> ended g) (giveaways s)) (winner_rows s)"

definition known :: "db \<Rightarrow> int \<Rightarrow> bool" where
  "known s i = list_ex (\<lambda>g. g_id g = i) (giveaways s)"

fun task_known :: "db \<Rightarrow> task \<Rightarrow> bool" where
  "task_known s (TickTask env now g a gs) = list_all (\<lambda>h. known s (g_id h)) (g # gs)"
| "task_known s (JoinTask c gid g now member_ok) = known s gid"
| "task_known s (AnnounceTask c gid g ws now ok) = True"

definition sys_inv :: "config \<Rightarrow> sys \<Rightarrow> bool" where
  "sys_inv cfg z \<longleftrightarrow> db_inv cfg (store z) \<and> list_all (task_known (store z)) (tasks z)"

definition seed_at :: "db \<Rightarrow> int \<Rightarrow> (string option \<times> string option) option" where
  "seed_at s i = map_option (\<lambda>g. (seed g, seed_hash g)) (get_giveaway s i)"

fun content_proof :: "content \<Rightarrow> proof_view option" where
  "content_proof (ProofText pv) = Some pv"
| "content_proof (GinfoText v p) = p"
| "content_proof _ = None"

fun event_proof :: "event \<Rightarrow> proof_view option" where
  "event_proof (SendMessage a c ok) = content_proof c"
| "event_proof (SendBestEffort a c) = content_proof c"
| "event_proof (EditMessageText a m c) = content_proof c"
| "event_proof (Reply c t) = content_proof t"
| "event_proof _ = None"

fun private_to_operator :: "config \<Rightarrow> event \<Rightarrow> bool" where
  "private_to_operator cfg (SendMessage a c ok) = (a \<in> set (ADMINS cfg))"
| "private_to_operator cfg (SendBestEffort a c) = (a \<in> set (ADMINS cfg))"
| "private_to_operator cfg (EditMessageText a m c) = (a \<in> set (ADMINS cfg))"
| "private_to_operator cfg (Reply c t) = (chat_private c \<and> isAdmin cfg (from_id c))"
| "private_to_operator cfg _ = False"

definition proofs_private :: "config \<Rightarrow> event list \<Rightarrow> bool" where
  "proofs_private cfg evs = list_all (\<lambda>ev. event_proof ev = None \<or> private_to_operator cfg ev) evs"

section \<open>Properties\<close>


subsection \<open>The selector\<close>

lemma compare_ranked_le:
  "compare_ranked a b \<le> 0 \<longleftrightarrow> (rank a, user_id a) \<le> (rank b, user_id b)"
  by (auto simp: compare_ranked_def localeCompare_def Let_def)

lemma insert_by_insort_key:
  assumes "\<And>x y. cmp x y \<le> 0 \<longleftrightarrow> key x \<le> key y"
  shows "insert_by cmp x ys = insort_key key x ys"
  by (induction ys) (simp_all add: assms)

lemma js_sort_sort_key:
  assumes "\<And>x y. cmp x y \<le> 0 \<longleftrightarrow> key x \<le> key y"
  shows "js_sort cmp xs = sort_key key xs"
  by (induction xs) (simp_all add: js_sort_def sort_key_def insert_by_insort_key [OF assms])

lemma js_slice0_take:
  "0 \<le> k \<Longrightarrow> js_slice0 xs (min k (int (length xs))) = take (min (nat k) (length xs)) xs"
  by (auto simp: js_slice0_def Let_def min_def nat_le_iff)

lemma length_js_sort: "length (js_sort compare_ranked xs) = length xs"
  by (simp add: js_sort_sort_key [OF compare_ranked_le])

lemma pick_refines:
  assumes "0 \<le> k"
  shows "pickWinnersDeterministic cfg (Some sd) gid ps k = Inr (select_spec cfg sd gid ps (nat k))"
proof (cases "ps = []")
  case True
  then show ?thesis
    by (simp add: pickWinnersDeterministic_def select_spec_def js_slice0_def)
next
  case False
  then show ?thesis
    using js_slice0_take [OF assms, of "js_sort compare_ranked (map (with_rank cfg sd gid) ps)"]
    by (simp add: pickWinnersDeterministic_def select_spec_def Let_def length_js_sort
        js_sort_sort_key [OF compare_ranked_le])
qed

lemma key_inj:
  assumes "distinct (map user_id ps)"
  shows "inj_on (\<lambda>r. (rank r, user_id r)) (set (map (with_rank cfg sd gid) ps))"
proof (rule inj_onI)
  fix a b
  assume a: "a \<in> set (map (with_rank cfg sd gid) ps)"
    and b: "b \<in> set (map (with_rank cfg sd gid) ps)"
    and eq: "(rank a, user_id a) = (rank b, user_id b)"
  from a obtain p where p: "p \<in> set ps" "a = with_rank cfg sd gid p" by auto
  from b obtain q where q: "q \<in> set ps" "b = with_rank cfg sd gid q" by auto
  from eq p q have "user_id p = user_id q" by (simp add: with_rank_def)
  with assms p(1) q(1) have "p = q"
    by (meson distinct_map inj_onD)
  with p q show "a = b" by simp
qed

lemma select_spec_perm:
  assumes "mset qs = mset ps" "distinct (map user_id ps)"
  shows "select_spec cfg sd gid qs k = select_spec cfg sd gid ps k"
proof -
  have m: "mset (map (with_rank cfg sd gid) ps) = mset (map (with_rank cfg sd gid) qs)"
    using assms(1) by simp
  have "sort_key (\<lambda>r. (rank r, user_id r)) (map (with_rank cfg sd gid) ps)
      = sort_key (\<lambda>r. (rank r, user_id r)) (map (with_rank cfg sd gid) qs)"
    by (rule sort_key_eq_sort_key [OF m key_inj [OF assms(2)]])
  moreover have "length qs = length ps"
    using assms(1) by (metis size_mset)
  ultimately show ?thesis by (simp add: select_spec_def)
qed

lemma map_insort_key:
  "map f (insort_key (\<lambda>x. g (f x)) x xs) = insort_key g (f x) (map f xs)"
  by (induction xs) simp_all

lemma map_sort_key_comp:
  "map f (sort_key (\<lambda>x. g (f x)) xs) = sort_key g (map f xs)"
  by (induction xs) (simp_all add: map_insort_key)

lemma select_spec_ids:
  "map user_id (select_spec cfg sd gid ps k)
   = take (min k (length ps)) (sort_key (\<lambda>u. (rank_of cfg sd gid u, u)) (map user_id ps))"
proof -
  let ?W = "with_rank cfg sd gid"
  let ?K = "\<lambda>u. (rank_of cfg sd gid u, u)"
  have "sort_key (\<lambda>r. (rank r, user_id r)) (map ?W ps)
      = map ?W (sort_key (\<lambda>p. ?K (user_id p)) ps)"
    using map_sort_key_comp [of ?W "\<lambda>r. (rank r, user_id r)" ps]
    by (simp add: with_rank_def)
  then have "map user_id (sort_key (\<lambda>r. (rank r, user_id r)) (map ?W ps))
      = map user_id (map ?W (sort_key (\<lambda>p. ?K (user_id p)) ps))"
    by simp
  also have "\<dots> = map user_id (sort_key (\<lambda>p. ?K (user_id p)) ps)"
    by (simp add: with_rank_def)
  also have "\<dots> = sort_key ?K (map user_id ps)"
    by (rule map_sort_key_comp)
  finally have "map user_id (sort_key (\<lambda>r. (rank r, user_id r)) (map ?W ps))
      = sort_key ?K (map user_id ps)" .
  then show ?thesis by (simp only: select_spec_def take_map [symmetric])
qed

lemma select_spec_ids_perm:
  assumes "mset qs = mset ps"
  shows "map user_id (select_spec cfg sd gid qs k) = map user_id (select_spec cfg sd gid ps k)"
proof -
  have m: "mset (map user_id qs) = mset (map user_id ps)" using assms by simp
  have "inj_on (\<lambda>u. (rank_of cfg sd gid u, u)) (set (map user_id qs))"
    by (rule inj_onI) simp
  from sort_key_eq_sort_key [OF m this]
  have "sort_key (\<lambda>u. (rank_of cfg sd gid u, u)) (map user_id qs)
      = sort_key (\<lambda>u. (rank_of cfg sd gid u, u)) (map user_id ps)" .
  moreover have "length qs = length ps" using assms by (metis size_mset)
  ultimately show ?thesis by (simp add: select_spec_ids)
qed

text \<open>
  C1. For a winner count \<open>k \<ge> 0\<close>, \<^verbatim>\<open>pickWinnersDeterministic\<close> returns the first
  \<open>min k |participants|\<close> participants in the order of (rank, participant id), the rank
  being the HMAC of \<open>giveawayId ':' participantId\<close> under the seed. Being a function, it
  returns the same list on every call; the list does not depend on the order in which the
  participants are enumerated (participant ids are unique in a giveaway; the ids selected
  are the same even without that), and no participant gives no winner.
\<close>

theorem pickWinnersDeterministic_selects:
  assumes "0 \<le> k"
  shows "pickWinnersDeterministic cfg (Some sd) gid ps k = Inr (select_spec cfg sd gid ps (nat k))
     \<and> (mset qs = mset ps \<and> distinct (map user_id ps) \<longrightarrow>
          pickWinnersDeterministic cfg (Some sd) gid qs k
          = pickWinnersDeterministic cfg (Some sd) gid ps k)
     \<and> (mset qs = mset ps \<longrightarrow>
          map user_id (select_spec cfg sd gid qs (nat k))
          = map user_id (select_spec cfg sd gid ps (nat k)))
     \<and> pickWinnersDeterministic cfg (Some sd) gid [] k = Inr []"
proof (intro conjI impI)
  show "pickWinnersDeterministic cfg (Some sd) gid ps k = Inr (select_spec cfg sd gid ps (nat k))"
    by (rule pick_refines [OF assms])
next
  assume "mset qs = mset ps \<and> distinct (map user_id ps)"
  then have "select_spec cfg sd gid qs (nat k) = select_spec cfg sd gid ps (nat k)"
    by (intro select_spec_perm) simp_all
  then show "pickWinnersDeterministic cfg (Some sd) gid qs k
      = pickWinnersDeterministic cfg (Some sd) gid ps k"
    by (simp only: pick_refines [OF assms])
next
  assume "mset qs = mset ps"
  then show "map user_id (select_spec cfg sd gid qs (nat k))
      = map user_id (select_spec cfg sd gid ps (nat k))"
    by (rule select_spec_ids_perm)
next
  show "pickWinnersDeterministic cfg (Some sd) gid [] k = Inr []"
    by (simp add: pickWinnersDeterministic_def js_slice0_def)
qed

theorem pickWinnersDeterministic_selects_witness:
  "pickWinnersDeterministic demo_cfg (Some ''ab'') 42 demo_entrants 2
     = Inr [\<lparr>user_id = 21, name = ''B'', rank = ''12:24ab''\<rparr>,
            \<lparr>user_id = 12, name = ''A'', rank = ''21:24ab''\<rparr>]
   \<and> pickWinnersDeterministic demo_cfg (Some ''ab'') 42 (rev demo_entrants) 2
     = pickWinnersDeterministic demo_cfg (Some ''ab'') 42 demo_entrants 2
   \<and> select_spec demo_cfg ''ab'' 42 demo_entrants 2
     = [\<lparr>user_id = 21, name = ''B'', rank = ''12:24ab''\<rparr>,
        \<lparr>user_id = 12, name = ''A'', rank = ''21:24ab''\<rparr>]"
proof -
  have k: "(0::int) \<le> 2" by simp
  have ev: "pickWinnersDeterministic demo_cfg (Some ''ab'') 42 demo_entrants 2
      = Inr [\<lparr>user_id = 21, name = ''B'', rank = ''12:24ab''\<rparr>,
             \<lparr>user_id = 12, name = ''A'', rank = ''21:24ab''\<rparr>]"
    by code_simp
  have perm: "mset (rev demo_entrants) = mset demo_entrants \<and> distinct (map user_id demo_entrants)"
    by (simp add: demo_entrants_def)
  from pickWinnersDeterministic_selects [OF k, of demo_cfg "''ab''" 42 demo_entrants "rev demo_entrants"]
    ev perm
  show ?thesis by simp
qed

subsection \<open>Writes, transactions and the loop body\<close>

lemma find_map_upd:
  assumes "\<And>r. g_id (f r) = g_id r"
  shows "find (\<lambda>g. g_id g = j) (map (\<lambda>g. if g_id g = i then f g else g) gs)
       = (if j = i then map_option f (find (\<lambda>g. g_id g = i) gs) else find (\<lambda>g. g_id g = j) gs)"
  by (induction gs) (auto simp: assms)

lemma get_giveaway_update:
  assumes "\<And>r. g_id (f r) = g_id r"
  shows "get_giveaway (update_giveaway i f s) j
       = (if j = i then map_option f (get_giveaway s i) else get_giveaway s j)"
  by (simp add: get_giveaway_def update_giveaway_def find_map_upd [OF assms])

lemma get_giveaway_mark_ended [simp]:
  "get_giveaway (mark_ended now i s) j
   = (if j = i then map_option (\<lambda>r. r\<lparr>ended := True, ended_at := Some now\<rparr>) (get_giveaway s i)
      else get_giveaway s j)"
  unfolding mark_ended_def by (rule get_giveaway_update) simp

lemma get_giveaway_mark_announced [simp]:
  "get_giveaway (mark_announced now i s) j
   = (if j = i then map_option (\<lambda>r. r\<lparr>announced := True, announced_at := Some now\<rparr>) (get_giveaway s i)
      else get_giveaway s j)"
  unfolding mark_announced_def by (rule get_giveaway_update) simp

lemma tables_update_giveaway [simp]:
  "participants (update_giveaway i f s) = participants s"
  "winner_rows (update_giveaway i f s) = winner_rows s"
  "participants_of (update_giveaway i f s) j = participants_of s j"
  "winners_of (update_giveaway i f s) j = winners_of s j"
  "count_participants (update_giveaway i f s) j = count_participants s j"
  by (simp_all add: update_giveaway_def participants_of_def winners_of_def count_participants_def)

lemma tables_mark [simp]:
  "participants (mark_ended now i s) = participants s"
  "winner_rows (mark_ended now i s) = winner_rows s"
  "participants_of (mark_ended now i s) j = participants_of s j"
  "winners_of (mark_ended now i s) j = winners_of s j"
  "participants (mark_announced now i s) = participants s"
  "winner_rows (mark_announced now i s) = winner_rows s"
  "participants_of (mark_announced now i s) j = participants_of s j"
  "winners_of (mark_announced now i s) j = winners_of s j"
  by (simp_all add: mark_ended_def mark_announced_def)

lemma tables_add_winners [simp]:
  "giveaways (add_winners i picked s) = giveaways s"
  "participants (add_winners i picked s) = participants s"
  "winner_rows (add_winners i picked s) = winner_rows s @ map (to_winner_row i) picked"
  "get_giveaway (add_winners i picked s) j = get_giveaway s j"
  "participants_of (add_winners i picked s) j = participants_of s j"
  "winners_of (add_winners i picked s) j
   = (if j = i then winners_of s i @ map (\<lambda>w. \<lparr>user_id = user_id w, name = name w\<rparr>) picked
      else winners_of s j)"
  by (simp_all add: add_winners_def get_giveaway_def participants_of_def winners_of_def
      to_winner_row_def comp_def)

lemma foldl_insert_winner:
  "foldl (\<lambda>w st. st w) s (map (insert_winner i) picked) = add_winners i picked s"
proof (induction picked arbitrary: s)
  case Nil
  then show ?case by (simp add: add_winners_def)
next
  case (Cons p ps)
  then show ?case by (simp add: add_winners_def insert_winner_def to_winner_row_def)
qed

lemma run_stmts_eq:
  "run_stmts fault body w
   = (if tx_ok fault (length body) then (foldl (\<lambda>w st. st w) w body, True)
      else (foldl (\<lambda>w st. st w) w (take (the fault) body), False))"
proof (induction body arbitrary: fault w)
  case Nil
  then show ?case by (cases fault) (auto simp: tx_ok_def)
next
  case (Cons st sts)
  show ?case
  proof (cases fault)
    case None
    then show ?thesis using Cons [of None "st w"] by (simp add: tx_ok_def)
  next
    case (Some i)
    then show ?thesis using Cons [of "Some (i - 1)" "st w"]
      by (cases i) (auto simp: tx_ok_def)
  qed
qed

lemma transaction_eq:
  "transaction fault body s
   = (if tx_ok fault (length body) then Inr (foldl (\<lambda>w st. st w) s body) else Inl StoreError)"
  by (simp add: transaction_def run_stmts_eq)

lemma draw_winners_eq:
  "draw_winners cfg env now g ps s
   = (case pickWinnersDeterministic cfg (seed g) (g_id g) ps (winners g) of
        Inl e \<Rightarrow> Inl e
      | Inr picked \<Rightarrow>
          if tx_ok (tx_fault env (g_id g)) (Suc (length picked))
          then Inr (mark_ended now (g_id g) (add_winners (g_id g) picked s))
          else Inl StoreError)"
  by (simp add: draw_winners_def transaction_eq foldl_insert_winner split: sum.splits)

subsection \<open>One tick, giveaway by giveaway\<close>

lemma same_at_refl [simp]: "same_at s s i"
  by (simp add: same_at_def)

lemma same_at_trans: "same_at s t i \<Longrightarrow> same_at t u i \<Longrightarrow> same_at s u i"
  by (simp add: same_at_def)

lemma announce_from_db_participants [simp]:
  "participants (fst (announce_from_db cfg env now g s)) = participants s"
  by (auto simp: announce_from_db_def Let_def split: option.splits)

lemma draw_empty_participants [simp]:
  "participants (fst (draw_empty cfg env now g s)) = participants s"
  by (auto simp: draw_empty_def Let_def split: option.splits)

lemma announce_from_db_frame:
  "j \<noteq> g_id g \<Longrightarrow> same_at (fst (announce_from_db cfg env now g s)) s j"
  by (auto simp: announce_from_db_def Let_def same_at_def split: option.splits)

lemma draw_empty_frame:
  "j \<noteq> g_id g \<Longrightarrow> same_at (fst (draw_empty cfg env now g s)) s j"
  by (auto simp: draw_empty_def Let_def same_at_def split: option.splits)

lemma announce_from_db_local:
  assumes "same_at s t (g_id g)"
  shows "same_at (fst (announce_from_db cfg env now g s)) (fst (announce_from_db cfg env now g t)) (g_id g)
       \<and> snd (announce_from_db cfg env now g s) = snd (announce_from_db cfg env now g t)"
  using assms
  by (auto simp: announce_from_db_def Let_def same_at_def split: option.splits)

lemma draw_empty_local:
  assumes "same_at s t (g_id g)"
  shows "same_at (fst (draw_empty cfg env now g s)) (fst (draw_empty cfg env now g t)) (g_id g)
       \<and> snd (draw_empty cfg env now g s) = snd (draw_empty cfg env now g t)"
  using assms
  by (auto simp: draw_empty_def Let_def same_at_def split: option.splits)

lemma same_at_drawn:
  "same_at s t i \<Longrightarrow>
   same_at (mark_ended now i (add_winners i picked s)) (mark_ended now i (add_winners i picked t)) i"
  by (simp add: same_at_def)

lemma drawn_frame:
  "j \<noteq> i \<Longrightarrow> same_at (mark_ended now i (add_winners i picked s)) s j"
  by (simp add: same_at_def)

lemma process_one_cases [case_names announce empty failed drawn]:
  obtains
    "ended g" "process_one cfg env now g s = announce_from_db cfg env now g s"
  | "\<not> ended g" "participants_of s (g_id g) = []"
    "process_one cfg env now g s = draw_empty cfg env now g s"
  | "\<not> ended g" "participants_of s (g_id g) \<noteq> []"
    "\<forall>picked. pickWinnersDeterministic cfg (seed g) (g_id g) (participants_of s (g_id g)) (winners g)
        = Inr picked \<longrightarrow> \<not> tx_ok (tx_fault env (g_id g)) (Suc (length picked))"
    "process_one cfg env now g s = (s, [LogError ''AUTO_ANNOUNCE_FAIL'' (g_id g)])"
  | picked where "\<not> ended g" "participants_of s (g_id g) \<noteq> []"
    "pickWinnersDeterministic cfg (seed g) (g_id g) (participants_of s (g_id g)) (winners g)
       = Inr picked"
    "tx_ok (tx_fault env (g_id g)) (Suc (length picked))"
    "process_one cfg env now g s
       = announce_from_db cfg env now g (mark_ended now (g_id g) (add_winners (g_id g) picked s))"
proof (cases "ended g")
  case True
  then show ?thesis using that(1) by (simp add: process_one_def)
next
  case ne: False
  show ?thesis
  proof (cases "participants_of s (g_id g) = []")
    case True
    with ne show ?thesis using that(2) by (simp add: process_one_def)
  next
    case ps: False
    show ?thesis
    proof (cases "pickWinnersDeterministic cfg (seed g) (g_id g) (participants_of s (g_id g)) (winners g)")
      case (Inl e)
      with ne ps show ?thesis using that(3)
        by (simp add: process_one_def draw_winners_eq)
    next
      case (Inr picked)
      show ?thesis
      proof (cases "tx_ok (tx_fault env (g_id g)) (Suc (length picked))")
        case True
        with ne ps Inr show ?thesis using that(4) [of picked]
          by (simp add: process_one_def draw_winners_eq)
      next
        case False
        with ne ps Inr show ?thesis using that(3)
          by (simp add: process_one_def draw_winners_eq)
      qed
    qed
  qed
qed

lemma process_one_participants [simp]:
  "participants (fst (process_one cfg env now g s)) = participants s"
  by (cases cfg env now g s rule: process_one_cases) simp_all

lemma process_one_frame:
  assumes "j \<noteq> g_id g"
  shows "same_at (fst (process_one cfg env now g s)) s j"
proof (cases cfg env now g s rule: process_one_cases)
  case announce
  then show ?thesis by (simp add: announce_from_db_frame [OF assms])
next
  case empty
  then show ?thesis by (simp add: draw_empty_frame [OF assms])
next
  case failed
  then show ?thesis by simp
next
  case (drawn picked)
  show ?thesis
    unfolding drawn(5)
    by (rule same_at_trans [OF announce_from_db_frame [OF assms] drawn_frame [OF assms]])
qed

lemma process_one_local:
  assumes "same_at s t (g_id g)"
  shows "same_at (fst (process_one cfg env now g s)) (fst (process_one cfg env now g t)) (g_id g)
       \<and> snd (process_one cfg env now g s) = snd (process_one cfg env now g t)"
proof -
  have p: "participants_of t (g_id g) = participants_of s (g_id g)"
    using assms by (simp add: same_at_def)
  show ?thesis
  proof (cases cfg env now g s rule: process_one_cases)
    case announce
    then have "process_one cfg env now g t = announce_from_db cfg env now g t"
      by (simp add: process_one_def)
    with announce announce_from_db_local [OF assms] show ?thesis by simp
  next
    case empty
    then have "process_one cfg env now g t = draw_empty cfg env now g t"
      by (simp add: process_one_def p)
    with empty draw_empty_local [OF assms] show ?thesis by simp
  next
    case failed
    then have "process_one cfg env now g t = (t, [LogError ''AUTO_ANNOUNCE_FAIL'' (g_id g)])"
      by (auto simp: process_one_def draw_winners_eq p split: sum.splits)
    with failed assms show ?thesis by simp
  next
    case (drawn picked)
    then have "process_one cfg env now g t
        = announce_from_db cfg env now g (mark_ended now (g_id g) (add_winners (g_id g) picked t))"
      by (simp add: process_one_def draw_winners_eq p)
    with drawn(5) announce_from_db_local [OF same_at_drawn [OF assms]] show ?thesis by simp
  qed
qed

lemma process_all_participants [simp]:
  "participants (fst (process_all cfg env now gs s)) = participants s"
  by (induction gs arbitrary: s) (simp_all add: split_beta Let_def)

lemma process_all_frame:
  "j \<notin> g_id ` set gs \<Longrightarrow> same_at (fst (process_all cfg env now gs s)) s j"
proof (induction gs arbitrary: s)
  case Nil
  then show ?case by simp
next
  case (Cons g gs)
  then have "same_at (fst (process_all cfg env now gs (fst (process_one cfg env now g s))))
      (fst (process_one cfg env now g s)) j"
    by simp
  moreover have "same_at (fst (process_one cfg env now g s)) s j"
    using Cons.prems by (intro process_one_frame) auto
  ultimately show ?case
    by (simp add: split_beta Let_def same_at_trans)
qed

lemma process_all_local:
  assumes "distinct (map g_id gs)"
  shows "(\<forall>g \<in> set gs. same_at (fst (process_all cfg env now gs s))
            (fst (process_one cfg env now g s)) (g_id g))
       \<and> snd (process_all cfg env now gs s)
         = concat (map (\<lambda>g. snd (process_one cfg env now g s)) gs)"
  using assms
proof (induction gs arbitrary: s)
  case Nil
  then show ?case by simp
next
  case (Cons g gs)
  let ?s1 = "fst (process_one cfg env now g s)"
  from Cons.prems have d: "distinct (map g_id gs)" and n: "g_id g \<notin> g_id ` set gs"
    by auto
  have ih: "(\<forall>h \<in> set gs. same_at (fst (process_all cfg env now gs ?s1))
            (fst (process_one cfg env now h ?s1)) (g_id h))
       \<and> snd (process_all cfg env now gs ?s1)
         = concat (map (\<lambda>h. snd (process_one cfg env now h ?s1)) gs)"
    by (rule Cons.IH [OF d])
  have loc: "same_at (fst (process_one cfg env now h ?s1)) (fst (process_one cfg env now h s)) (g_id h)
       \<and> snd (process_one cfg env now h ?s1) = snd (process_one cfg env now h s)"
    if "h \<in> set gs" for h
  proof -
    from that n have "g_id h \<noteq> g_id g" by (metis imageI)
    then have "same_at ?s1 s (g_id h)" by (rule process_one_frame)
    then show ?thesis by (rule process_one_local)
  qed
  have head: "same_at (fst (process_all cfg env now gs ?s1)) ?s1 (g_id g)"
    by (rule process_all_frame [OF n])
  have ev: "concat (map (\<lambda>h. snd (process_one cfg env now h ?s1)) gs)
      = concat (map (\<lambda>h. snd (process_one cfg env now h s)) gs)"
    using loc by (intro arg_cong [where f = concat] map_cong) auto
  show ?case
    using ih head loc ev
    by (auto simp: split_beta Let_def intro: same_at_trans)
qed

lemma pending_distinct:
  "distinct (map g_id (giveaways s)) \<Longrightarrow> distinct (map g_id (pending now s))"
  by (simp add: pending_def distinct_map_filter)

lemma find_distinct:
  "distinct (map g_id gs) \<Longrightarrow> g \<in> set gs \<Longrightarrow> find (\<lambda>r. g_id r = g_id g) gs = Some g"
  by (induction gs) (auto simp: rev_image_eqI)

lemma get_giveaway_mem:
  "distinct (map g_id (giveaways s)) \<Longrightarrow> g \<in> set (giveaways s) \<Longrightarrow> get_giveaway s (g_id g) = Some g"
  by (simp add: get_giveaway_def find_distinct)

lemma get_giveaway_SomeD:
  "get_giveaway s i = Some g \<Longrightarrow> g \<in> set (giveaways s) \<and> g_id g = i"
  by (auto simp: get_giveaway_def find_Some_iff)

text \<open>One tick, seen from one giveaway.\<close>

lemma tick_at:
  assumes d: "distinct (map g_id (giveaways s))" and g: "get_giveaway s i = Some g"
  shows "same_at (fst (drawAndAnnounce cfg env now s))
           (if due now g then fst (process_one cfg env now g s) else s) i"
proof (cases "due now g")
  case True
  from g have m: "g \<in> set (giveaways s)" and i: "g_id g = i"
    using get_giveaway_SomeD by auto
  with True have "g \<in> set (pending now s)" by (simp add: pending_def due_def)
  with process_all_local [OF pending_distinct [OF d]] True i
  show ?thesis by (auto simp: drawAndAnnounce_def)
next
  case False
  from g have m: "g \<in> set (giveaways s)" and i: "g_id g = i"
    using get_giveaway_SomeD by auto
  have "i \<notin> g_id ` set (pending now s)"
  proof
    assume "i \<in> g_id ` set (pending now s)"
    then obtain h where h: "h \<in> set (giveaways s)" "due now h" "g_id h = i"
      by (auto simp: pending_def due_def)
    with d m i have "h = g" by (metis distinct_map inj_onD)
    with h False show False by simp
  qed
  with False show ?thesis
    by (simp add: drawAndAnnounce_def process_all_frame)
qed

lemma tick_events:
  assumes d: "distinct (map g_id (giveaways s))"
  shows "snd (drawAndAnnounce cfg env now s)
       = concat (map (\<lambda>g. snd (process_one cfg env now g s)) (pending now s))"
  using process_all_local [OF pending_distinct [OF d]]
  by (simp add: drawAndAnnounce_def)

subsection \<open>The stores the bot can reach\<close>

text \<open>The invariant holds in the empty store and every step of the event loop keeps it,
  whichever handler starts and whichever waiting handler goes on.\<close>

lemma db_inv_empty: "db_inv cfg empty_db"
  by (simp add: db_inv_def empty_db_def)

lemma db_inv_distinct: "db_inv cfg s \<Longrightarrow> distinct (map g_id (giveaways s))"
  by (simp add: db_inv_def)

lemma db_inv_row: "db_inv cfg s \<Longrightarrow> g \<in> set (giveaways s) \<Longrightarrow> row_inv cfg g"
  by (simp add: db_inv_def list_all_iff)

lemma db_inv_get: "db_inv cfg s \<Longrightarrow> get_giveaway s i = Some g \<Longrightarrow> row_inv cfg g"
  using db_inv_row get_giveaway_SomeD by blast

lemma known_iff: "known s i \<longleftrightarrow> i \<in> set (map g_id (giveaways s))"
  by (auto simp: known_def list_ex_iff)

lemma known_get: "known s i \<Longrightarrow> \<exists>g. get_giveaway s i = Some g"
  by (cases "get_giveaway s i") (auto simp: known_def list_ex_iff get_giveaway_def find_None_iff)

lemma get_known: "get_giveaway s i = Some g \<Longrightarrow> known s i"
  using get_giveaway_SomeD [of s i g] by (auto simp: known_def list_ex_iff)

lemma ids_update:
  assumes "\<And>r. g_id (f r) = g_id r"
  shows "map g_id (giveaways (update_giveaway i f s)) = map g_id (giveaways s)"
  by (simp add: update_giveaway_def assms comp_def cong: map_cong)

lemma ids_mark [simp]:
  "map g_id (giveaways (mark_ended now i s)) = map g_id (giveaways s)"
  "map g_id (giveaways (mark_announced now i s)) = map g_id (giveaways s)"
  unfolding mark_ended_def mark_announced_def by (rule ids_update, simp)+

text \<open>A write to the rows of one id keeps the invariant when it keeps the id, the seed and
  its hash, and only raises \<open>ended\<close>.\<close>

lemma db_inv_update:
  assumes inv: "db_inv cfg s"
    and id: "\<And>r. g_id (f r) = g_id r"
    and en: "\<And>r. ended r \<Longrightarrow> ended (f r)"
    and sd: "\<And>r. seed (f r) = seed r" "\<And>r. seed_hash (f r) = seed_hash r"
  shows "db_inv cfg (update_giveaway i f s)"
proof -
  let ?u = "\<lambda>g. if g_id g = i then f g else g"
  have ids: "map g_id (map ?u (giveaways s)) = map g_id (giveaways s)"
    by (simp add: id comp_def cong: map_cong)
  have rows: "list_all (row_inv cfg) (map ?u (giveaways s))"
    using inv sd by (auto simp: list_all_iff db_inv_def row_inv_def)
  have ex: "list_ex (\<lambda>g. g_id g = j) (map ?u (giveaways s))"
    if "list_ex (\<lambda>g. g_id g = j) (giveaways s)" for j
  proof -
    from that obtain g where g: "g \<in> set (giveaways s)" "g_id g = j"
      by (auto simp: list_ex_iff)
    then have "?u g \<in> set (map ?u (giveaways s))" "g_id (?u g) = j"
      by (auto simp: id)
    then show ?thesis unfolding list_ex_iff by blast
  qed
  have exe: "list_ex (\<lambda>g. g_id g = j \<and> ended g) (map ?u (giveaways s))"
    if "list_ex (\<lambda>g. g_id g = j \<and> ended g) (giveaways s)" for j
  proof -
    from that obtain g where g: "g \<in> set (giveaways s)" "g_id g = j" "ended g"
      by (auto simp: list_ex_iff)
    then have "?u g \<in> set (map ?u (giveaways s))" "g_id (?u g) = j" "ended (?u g)"
      by (auto simp: id en)
    then show ?thesis unfolding list_ex_iff by blast
  qed
  have c: "giveaways (update_giveaway i f s) = map ?u (giveaways s)"
    "participants (update_giveaway i f s) = participants s"
    "winner_rows (update_giveaway i f s) = winner_rows s"
    by (simp_all add: update_giveaway_def)
  show ?thesis
    unfolding db_inv_def c
  proof (intro conjI)
    show "distinct (map g_id (map ?u (giveaways s)))"
      unfolding ids using inv by (simp add: db_inv_def)
    show "list_all (row_inv cfg) (map ?u (giveaways s))" by (rule rows)
    show "list_all (\<lambda>p. list_ex (\<lambda>g. g_id g = p_giveaway_id p) (map ?u (giveaways s)))
        (participants s)"
      using inv ex unfolding db_inv_def list_all_iff by blast
    show "list_all (\<lambda>w. list_ex (\<lambda>g. g_id g = w_giveaway_id w \<and> ended g) (map ?u (giveaways s)))
        (winner_rows s)"
      using inv exe unfolding db_inv_def list_all_iff by blast
  qed
qed

lemma db_inv_mark_ended: "db_inv cfg s \<Longrightarrow> db_inv cfg (mark_ended now i s)"
  unfolding mark_ended_def by (rule db_inv_update) simp_all

lemma db_inv_mark_announced: "db_inv cfg s \<Longrightarrow> db_inv cfg (mark_announced now i s)"
  unfolding mark_announced_def by (rule db_inv_update) simp_all

lemma db_inv_drawn:
  assumes inv: "db_inv cfg s" and k: "known s i"
  shows "db_inv cfg (mark_ended now i (add_winners i picked s))"
proof -
  have a: "db_inv cfg (mark_ended now i s)" using inv by (rule db_inv_mark_ended)
  from k obtain g where m: "g \<in> set (giveaways s)" "g_id g = i"
    by (auto simp: known_def list_ex_iff)
  let ?u = "\<lambda>r. if g_id r = i then r\<lparr>ended := True, ended_at := Some now\<rparr> else r"
  from m have "?u g \<in> set (map ?u (giveaways s))" "g_id (?u g) = i" "ended (?u g)"
    by auto
  then have "list_ex (\<lambda>r. g_id r = i \<and> ended r) (map ?u (giveaways s))"
    unfolding list_ex_iff by blast
  then have "list_ex (\<lambda>r. g_id r = i \<and> ended r) (giveaways (mark_ended now i s))"
    by (simp add: mark_ended_def update_giveaway_def)
  then have new: "list_all (\<lambda>w. list_ex (\<lambda>r. g_id r = w_giveaway_id w \<and> ended r)
      (giveaways (mark_ended now i s))) (map (to_winner_row i) picked)"
    by (simp add: list_all_iff to_winner_row_def)
  have c: "giveaways (mark_ended now i (add_winners i picked s)) = giveaways (mark_ended now i s)"
    "participants (mark_ended now i (add_winners i picked s)) = participants (mark_ended now i s)"
    "winner_rows (mark_ended now i (add_winners i picked s))
       = winner_rows (mark_ended now i s) @ map (to_winner_row i) picked"
    by (simp_all add: mark_ended_def update_giveaway_def add_winners_def)
  show ?thesis
    using a new unfolding db_inv_def c by simp
qed

text \<open>The pieces of the handlers: each keeps the invariant and the ids of the table.\<close>

lemma draw_winners_InrD:
  assumes "draw_winners cfg env now g ps s = Inr s1"
  shows "\<exists>picked. s1 = mark_ended now (g_id g) (add_winners (g_id g) picked s)"
  using assms by (auto simp: draw_winners_eq split: sum.splits if_splits)

lemma process_begin_inv:
  assumes inv: "db_inv cfg s" and k: "known s (g_id g)"
  shows "db_inv cfg (fst (process_begin cfg env now g s))"
proof (cases "draw_winners cfg env now g (participants_of s (g_id g)) s")
  case (Inl e)
  then show ?thesis
    using inv db_inv_mark_ended [OF inv] by (simp add: process_begin_def Let_def)
next
  case (Inr s1)
  from draw_winners_InrD [OF Inr] obtain picked
    where "s1 = mark_ended now (g_id g) (add_winners (g_id g) picked s)" by blast
  then have "db_inv cfg s1" using db_inv_drawn [OF inv k] by simp
  then show ?thesis
    using inv db_inv_mark_ended [OF inv] Inr by (simp add: process_begin_def Let_def)
qed

lemma process_begin_ids:
  "map g_id (giveaways (fst (process_begin cfg env now g s))) = map g_id (giveaways s)"
proof (cases "draw_winners cfg env now g (participants_of s (g_id g)) s")
  case (Inl e)
  then show ?thesis by (simp add: process_begin_def Let_def)
next
  case (Inr s1)
  from draw_winners_InrD [OF Inr] obtain picked
    where "s1 = mark_ended now (g_id g) (add_winners (g_id g) picked s)" by blast
  then have "map g_id (giveaways s1) = map g_id (giveaways s)" by simp
  then show ?thesis
    using Inr by (simp add: process_begin_def Let_def)
qed

lemma process_finish_inv:
  "db_inv cfg s \<Longrightarrow> db_inv cfg (fst (process_finish cfg env now g a s))"
  by (cases a) (simp_all add: process_finish_def Let_def db_inv_mark_announced split: option.splits)

lemma process_finish_ids:
  "map g_id (giveaways (fst (process_finish cfg env now g a s))) = map g_id (giveaways s)"
  by (cases a) (simp_all add: process_finish_def Let_def split: option.splits)

lemma known_cong:
  "map g_id (giveaways s') = map g_id (giveaways s) \<Longrightarrow> known s' i = known s i"
  by (simp add: known_iff)

lemma task_known_mono:
  assumes "\<And>i. known s i \<Longrightarrow> known s' i" and "task_known s t"
  shows "task_known s' t"
  using assms by (cases t) (auto simp: list_all_iff)

lemma tick_loop_inv:
  assumes "db_inv cfg s" "list_all (\<lambda>h. known s (g_id h)) gs"
  shows "db_inv cfg (fst (tick_loop cfg env now gs s))
       \<and> map g_id (giveaways (fst (tick_loop cfg env now gs s))) = map g_id (giveaways s)
       \<and> (\<forall>t. snd (snd (tick_loop cfg env now gs s)) = Some t \<longrightarrow> task_known s t)"
  using assms
proof (induction gs arbitrary: s)
  case Nil
  then show ?case by simp
next
  case (Cons g gs)
  obtain s1 e1 aw where p: "process_begin cfg env now g s = (s1, e1, aw)"
    by (cases "process_begin cfg env now g s") auto
  from Cons.prems have k: "known s (g_id g)" and ks: "list_all (\<lambda>h. known s (g_id h)) gs"
    by simp_all
  have i1: "db_inv cfg s1" using process_begin_inv [OF Cons.prems(1) k, of env now] p by simp
  have d1: "map g_id (giveaways s1) = map g_id (giveaways s)"
    using process_begin_ids [of cfg env now g s] p by simp
  show ?case
  proof (cases aw)
    case (Some a)
    with p i1 d1 Cons.prems(2) show ?thesis by simp
  next
    case None
    have ks1: "list_all (\<lambda>h. known s1 (g_id h)) gs"
      using ks by (simp add: known_cong [OF d1])
    from Cons.IH [OF i1 ks1] have ih:
      "db_inv cfg (fst (tick_loop cfg env now gs s1))"
      "map g_id (giveaways (fst (tick_loop cfg env now gs s1))) = map g_id (giveaways s1)"
      "\<forall>t. snd (snd (tick_loop cfg env now gs s1)) = Some t \<longrightarrow> task_known s1 t"
      by simp_all
    have "task_known s t" if "task_known s1 t" for t
      using that by (rule task_known_mono [rotated]) (simp add: known_cong [OF d1])
    with ih d1 p None show ?thesis
      by (simp add: split_beta)
  qed
qed

lemma join_finish_inv:
  assumes inv: "db_inv cfg s" and k: "known s gid"
  shows "db_inv cfg (fst (join_finish c gid g now m s))"
  using inv k by (simp add: join_finish_def Let_def db_inv_def known_def)

lemma join_finish_ids:
  "giveaways (fst (join_finish c gid g now m s)) = giveaways s"
  by (simp add: join_finish_def Let_def)

lemma announce_cmd_finish_inv:
  "db_inv cfg s \<Longrightarrow> db_inv cfg (fst (announce_cmd_finish cfg c gid g ws now ok s))"
  by (simp add: announce_cmd_finish_def db_inv_mark_announced)

lemma announce_cmd_finish_ids:
  "map g_id (giveaways (fst (announce_cmd_finish cfg c gid g ws now ok s))) = map g_id (giveaways s)"
  by (simp add: announce_cmd_finish_def)

lemma cancel_cmd_fst:
  "fst (cancel_cmd cfg c gid reason now s)
   = (if isAdmin cfg (from_id c) \<and> gid \<noteq> 0 \<and>
         (case get_giveaway s gid of None \<Rightarrow> False | Some h \<Rightarrow> \<not> canceled h \<and> \<not> ended h)
      then update_giveaway gid
             (\<lambda>r. r\<lparr>canceled := True, ended := True, ended_at := Some now,
                    cancel_reason := Some reason\<rparr>) s
      else s)"
  by (simp add: cancel_cmd_def Let_def split: option.splits)

lemma announce_cmd_fst:
  "fst (announce_cmd cfg c gid now ok s)
   = (if isAdmin cfg (from_id c) \<and> chat_private c \<and> gid \<noteq> 0 \<and> ok \<and> winners_of s gid \<noteq> [] \<and>
         (case get_giveaway s gid of None \<Rightarrow> False | Some h \<Rightarrow> \<not> canceled h \<and> ended h)
      then mark_announced now gid s
      else s)"
  by (simp add: announce_cmd_def Let_def split: option.splits)

lemma cancel_cmd_inv: "db_inv cfg s \<Longrightarrow> db_inv cfg (fst (cancel_cmd cfg c gid reason now s))"
  unfolding cancel_cmd_fst by (simp add: db_inv_update)

lemma cancel_cmd_ids:
  "map g_id (giveaways (fst (cancel_cmd cfg c gid reason now s))) = map g_id (giveaways s)"
  unfolding cancel_cmd_fst by (simp add: ids_update)

lemma fold_max_ge: "(a::int) \<le> fold max xs a \<and> (\<forall>x \<in> set xs. x \<le> fold max xs a)"
proof (induction xs arbitrary: a)
  case Nil
  then show ?case by simp
next
  case (Cons x xs)
  from Cons [of "max x a"] show ?case by auto
qed

lemma lastInsertRowid_fresh: "lastInsertRowid s \<notin> g_id ` set (giveaways s)"
proof
  assume "lastInsertRowid s \<in> g_id ` set (giveaways s)"
  then have "lastInsertRowid s \<in> set (map g_id (giveaways s))" by simp
  with fold_max_ge [of 0 "map g_id (giveaways s)"]
  have "lastInsertRowid s \<le> fold max (map g_id (giveaways s)) 0" by blast
  then show False by (simp add: lastInsertRowid_def)
qed

lemma db_inv_create:
  assumes "db_inv cfg s"
  shows "db_inv cfg (fst (createGiveawayAndPost cfg c tg w e pr sp sd now sent edit_ok s))"
proof (cases sent)
  case None
  then show ?thesis using assms by (simp add: createGiveawayAndPost_def Let_def)
next
  case (Some mid)
  then show ?thesis
    using assms lastInsertRowid_fresh [of s]
    by (auto simp: createGiveawayAndPost_def Let_def db_inv_def row_inv_def list_all_iff list_ex_iff)
qed

lemma create_known:
  "known s i \<Longrightarrow> known (fst (createGiveawayAndPost cfg c tg w e pr sp sd now sent edit_ok s)) i"
  by (cases sent) (auto simp: createGiveawayAndPost_def Let_def known_def list_ex_iff)


text \<open>An uninterrupted handler is its piece before the await followed by its piece
  after it.\<close>

lemma process_one_split:
  "process_one cfg env now g s =
     (case process_begin cfg env now g s of
        (s1, e1, None) \<Rightarrow> (s1, e1)
      | (s1, e1, Some a) \<Rightarrow>
          (case process_finish cfg env now g a s1 of (s2, e2) \<Rightarrow> (s2, e1 @ e2)))"
  by (simp add: process_one_def process_begin_def process_finish_def announce_begin_def
      announce_from_db_def draw_empty_def Let_def split: sum.splits option.splits)

lemma join_action_split:
  "join_action c gid now m s =
     (case join_begin c gid now s of
        Inl evs \<Rightarrow> (s, evs)
      | Inr g \<Rightarrow> join_finish c gid g now m s)"
  by (simp add: join_action_def join_begin_def join_finish_def Let_def split: option.splits)

lemma announce_cmd_split:
  "announce_cmd cfg c gid now ok s =
     (case announce_cmd_begin cfg c gid s of
        Inl evs \<Rightarrow> (s, evs)
      | Inr (g, ws) \<Rightarrow> announce_cmd_finish cfg c gid g ws now ok s)"
  by (simp add: announce_cmd_def announce_cmd_begin_def announce_cmd_finish_def Let_def
      split: option.splits)

text \<open>Every step of the event loop keeps the invariant.\<close>

lemma pending_known: "list_all (\<lambda>h. known s (g_id h)) (pending now s)"
  by (auto simp: pending_def list_all_iff known_def list_ex_iff)

lemma join_begin_known: "join_begin c gid now s = Inr g \<Longrightarrow> known s gid"
  by (auto simp: join_begin_def intro: get_known split: option.splits if_splits)

lemma tasks_known_mono:
  assumes "\<And>i. known s i \<Longrightarrow> known s' i" and "list_all (task_known s) ts"
  shows "list_all (task_known s') ts"
  using assms task_known_mono [of s s'] by (auto simp: list_all_iff)

lemma tasks_known_ids:
  assumes "map g_id (giveaways s') = map g_id (giveaways s)" and "list_all (task_known s) ts"
  shows "list_all (task_known s') ts"
  using assms(2) by (rule tasks_known_mono [rotated]) (simp add: known_cong [OF assms(1)])

lemma sys_inv_tick:
  assumes inv: "db_inv cfg s" and ks: "list_all (\<lambda>h. known s (g_id h)) gs"
    and ts: "list_all (task_known s) ts"
    and r: "tick_loop cfg env now gs s = (s2, e2, t)"
  shows "sys_inv cfg \<lparr>store = s2, tasks = suspend t ts\<rparr>"
proof -
  from tick_loop_inv [OF inv ks, of env now] r
  have a: "db_inv cfg s2" "map g_id (giveaways s2) = map g_id (giveaways s)"
    "\<forall>k. t = Some k \<longrightarrow> task_known s k" by simp_all
  have "list_all (task_known s) (suspend t ts)"
    using ts a(3) by (cases t) (simp_all add: suspend_def)
  then have "list_all (task_known s2) (suspend t ts)"
    by (rule tasks_known_ids [OF a(2)])
  with a(1) show ?thesis by (simp add: sys_inv_def)
qed

lemma sys_inv_resume:
  assumes z: "sys_inv cfg z" and k: "task_known (store z) t"
  shows "sys_inv cfg (fst (resume cfg t z))"
proof (cases t)
  case (TickTask env now g a gs)
  obtain s1 e1 where f: "process_finish cfg env now g a (store z) = (s1, e1)"
    by (cases "process_finish cfg env now g a (store z)") auto
  obtain s2 e2 t2 where l: "tick_loop cfg env now gs s1 = (s2, e2, t2)"
    by (cases "tick_loop cfg env now gs s1") auto
  have i1: "db_inv cfg s1"
    using process_finish_inv [of cfg "store z" env now g a] z f by (simp add: sys_inv_def)
  have d1: "map g_id (giveaways s1) = map g_id (giveaways (store z))"
    using process_finish_ids [of cfg env now g a "store z"] f by simp
  have ks: "list_all (\<lambda>h. known s1 (g_id h)) gs"
    using k TickTask by (simp add: known_cong [OF d1])
  have ts: "list_all (task_known s1) (tasks z)"
    using z by (auto simp: sys_inv_def intro: tasks_known_ids [OF d1])
  from sys_inv_tick [OF i1 ks ts l] show ?thesis
    using TickTask f l by simp
next
  case (JoinTask c gid g now m)
  obtain s1 e1 where f: "join_finish c gid g now m (store z) = (s1, e1)"
    by (cases "join_finish c gid g now m (store z)") auto
  have i1: "db_inv cfg s1"
    using join_finish_inv [of cfg "store z" gid c g now m] z k JoinTask f
    by (simp add: sys_inv_def)
  have d1: "map g_id (giveaways s1) = map g_id (giveaways (store z))"
    using join_finish_ids [of c gid g now m "store z"] f by simp
  have "list_all (task_known s1) (tasks z)"
    using z by (auto simp: sys_inv_def intro: tasks_known_ids [OF d1])
  with i1 show ?thesis using JoinTask f by (simp add: sys_inv_def)
next
  case (AnnounceTask c gid g ws now ok)
  obtain s1 e1 where f: "announce_cmd_finish cfg c gid g ws now ok (store z) = (s1, e1)"
    by (cases "announce_cmd_finish cfg c gid g ws now ok (store z)") auto
  have i1: "db_inv cfg s1"
    using announce_cmd_finish_inv [of cfg "store z" c gid g ws now ok] z f
    by (simp add: sys_inv_def)
  have d1: "map g_id (giveaways s1) = map g_id (giveaways (store z))"
    using announce_cmd_finish_ids [of cfg c gid g ws now ok "store z"] f by simp
  have "list_all (task_known s1) (tasks z)"
    using z by (auto simp: sys_inv_def intro: tasks_known_ids [OF d1])
  with i1 show ?thesis using AnnounceTask f by (simp add: sys_inv_def)
qed

lemma sys_inv_store:
  assumes z: "sys_inv cfg z" and i: "db_inv cfg s1"
    and k: "\<And>i. known (store z) i \<Longrightarrow> known s1 i"
  shows "sys_inv cfg (z\<lparr>store := s1\<rparr>)"
  using z i tasks_known_mono [of "store z" s1 "tasks z"] k by (simp add: sys_inv_def)

lemma sys_inv_start:
  assumes z: "sys_inv cfg z"
  shows "sys_inv cfg (fst (act cfg (Start x) z))"
proof (cases x)
  case (Create c tg w e pr sp sd now sent edit_ok)
  have "sys_inv cfg (z\<lparr>store := fst (createGiveawayAndPost cfg c tg w e pr sp sd now sent edit_ok (store z))\<rparr>)"
    using z by (intro sys_inv_store db_inv_create create_known) (simp_all add: sys_inv_def)
  then show ?thesis using Create by (simp add: split_beta)
next
  case (Join c gid now m)
  show ?thesis
  proof (cases "join_begin c gid now (store z)")
    case (Inl evs)
    then show ?thesis using Join z by simp
  next
    case (Inr g)
    then show ?thesis using Join z join_begin_known [OF Inr] by (simp add: sys_inv_def)
  qed
next
  case (Ginfo c gid)
  have "fst (ginfo_cmd cfg c gid (store z)) = store z"
    by (simp add: ginfo_cmd_def Let_def split: option.splits)
  then show ?thesis using Ginfo z by (simp add: split_beta)
next
  case (Proof c gid)
  have "fst (proof_cmd cfg c gid (store z)) = store z"
    by (simp add: proof_cmd_def Let_def split: option.splits)
  then show ?thesis using Proof z by (simp add: split_beta)
next
  case (Cancel c gid reason now)
  have "sys_inv cfg (z\<lparr>store := fst (cancel_cmd cfg c gid reason now (store z))\<rparr>)"
    using z
    by (intro sys_inv_store cancel_cmd_inv)
       (simp_all add: sys_inv_def known_cong [OF cancel_cmd_ids])
  then show ?thesis using Cancel by (simp add: split_beta)
next
  case (Announce c gid now ok)
  then show ?thesis using z
    by (cases "announce_cmd_begin cfg c gid (store z)") (auto simp: sys_inv_def)
next
  case (Tick env now)
  obtain s2 e2 t where l: "tick_loop cfg env now (pending now (store z)) (store z) = (s2, e2, t)"
    by (cases "tick_loop cfg env now (pending now (store z)) (store z)") auto
  from z have "db_inv cfg (store z)" "list_all (task_known (store z)) (tasks z)"
    by (simp_all add: sys_inv_def)
  from sys_inv_tick [OF this(1) pending_known this(2) l] show ?thesis
    using Tick l by simp
qed

lemma sys_inv_act:
  assumes z: "sys_inv cfg z"
  shows "sys_inv cfg (fst (act cfg a z))"
proof (cases a)
  case (Start x)
  then show ?thesis using sys_inv_start [OF z] by simp
next
  case (Resume n)
  show ?thesis
  proof (cases "n < length (tasks z)")
    case False
    then show ?thesis using Resume z by simp
  next
    case True
    let ?z = "z\<lparr>tasks := take n (tasks z) @ drop (Suc n) (tasks z)\<rparr>"
    from z have all: "list_all (task_known (store z)) (tasks z)" by (simp add: sys_inv_def)
    have "set (take n (tasks z)) \<subseteq> set (tasks z)" "set (drop (Suc n) (tasks z)) \<subseteq> set (tasks z)"
      by (simp_all add: set_take_subset set_drop_subset)
    with all have "list_all (task_known (store z)) (take n (tasks z) @ drop (Suc n) (tasks z))"
      unfolding list_all_iff by auto
    with z have a: "sys_inv cfg ?z" by (simp add: sys_inv_def)
    have k: "task_known (store ?z) (tasks z ! n)"
      using all True by (simp add: list_all_length)
    from sys_inv_resume [OF a k] show ?thesis using Resume True by simp
  qed
qed

lemma sys_inv_exec: "sys_inv cfg z \<Longrightarrow> sys_inv cfg (exec cfg as z)"
  by (induction as arbitrary: z) (simp_all add: sys_inv_act)

lemma db_inv_reachable: "db_inv cfg (run cfg as empty_db)"
proof -
  have "sys_inv cfg \<lparr>store = empty_db, tasks = []\<rparr>"
    by (simp add: sys_inv_def db_inv_empty)
  from sys_inv_exec [OF this] show ?thesis by (simp add: run_def sys_inv_def)
qed


text \<open>A handler that runs with nothing in between is one of the runs of the event loop:
  the handler starts and, each time it waits, it is the next to go on.\<close>

lemma tick_loop_uninterrupted:
  "\<exists>n. exec cfg (replicate n (Resume 0))
          \<lparr>store = fst (tick_loop cfg env now gs s),
           tasks = suspend (snd (snd (tick_loop cfg env now gs s))) []\<rparr>
        = \<lparr>store = fst (process_all cfg env now gs s), tasks = []\<rparr>"
proof (induction gs arbitrary: s)
  case Nil
  have "exec cfg (replicate 0 (Resume 0))
          \<lparr>store = fst (tick_loop cfg env now [] s),
           tasks = suspend (snd (snd (tick_loop cfg env now [] s))) []\<rparr>
        = \<lparr>store = fst (process_all cfg env now [] s), tasks = []\<rparr>"
    by (simp add: suspend_def)
  then show ?case by blast
next
  case (Cons g gs)
  obtain s1 e1 aw where p: "process_begin cfg env now g s = (s1, e1, aw)"
    by (cases "process_begin cfg env now g s") auto
  show ?case
  proof (cases aw)
    case None
    have one: "fst (process_one cfg env now g s) = s1"
      by (simp add: process_one_split p None)
    from Cons.IH [of s1] obtain n where
      "exec cfg (replicate n (Resume 0))
          \<lparr>store = fst (tick_loop cfg env now gs s1),
           tasks = suspend (snd (snd (tick_loop cfg env now gs s1))) []\<rparr>
        = \<lparr>store = fst (process_all cfg env now gs s1), tasks = []\<rparr>"
      by blast
    then have "exec cfg (replicate n (Resume 0))
          \<lparr>store = fst (tick_loop cfg env now (g # gs) s),
           tasks = suspend (snd (snd (tick_loop cfg env now (g # gs) s))) []\<rparr>
        = \<lparr>store = fst (process_all cfg env now (g # gs) s), tasks = []\<rparr>"
      using one by (simp add: p None split_beta)
    then show ?thesis by blast
  next
    case (Some a)
    obtain s2 e2 where f: "process_finish cfg env now g a s1 = (s2, e2)"
      by (cases "process_finish cfg env now g a s1") auto
    have one: "fst (process_one cfg env now g s) = s2"
      by (simp add: process_one_split p Some f)
    from Cons.IH [of s2] obtain n where
      "exec cfg (replicate n (Resume 0))
          \<lparr>store = fst (tick_loop cfg env now gs s2),
           tasks = suspend (snd (snd (tick_loop cfg env now gs s2))) []\<rparr>
        = \<lparr>store = fst (process_all cfg env now gs s2), tasks = []\<rparr>"
      by blast
    then have "exec cfg (replicate (Suc n) (Resume 0))
          \<lparr>store = fst (tick_loop cfg env now (g # gs) s),
           tasks = suspend (snd (snd (tick_loop cfg env now (g # gs) s))) []\<rparr>
        = \<lparr>store = fst (process_all cfg env now (g # gs) s), tasks = []\<rparr>"
      using one by (simp add: p Some f split_beta suspend_def)
    then show ?thesis by blast
  qed
qed

lemma tick_uninterrupted:
  "\<exists>n. run cfg (Start (Tick env now) # replicate n (Resume 0)) s
        = fst (drawAndAnnounce cfg env now s)"
proof -
  from tick_loop_uninterrupted [of cfg env now "pending now s" s] obtain n where
    "exec cfg (replicate n (Resume 0))
          \<lparr>store = fst (tick_loop cfg env now (pending now s) s),
           tasks = suspend (snd (snd (tick_loop cfg env now (pending now s) s))) []\<rparr>
        = \<lparr>store = fst (drawAndAnnounce cfg env now s), tasks = []\<rparr>"
    unfolding drawAndAnnounce_def by blast
  then have "run cfg (Start (Tick env now) # replicate n (Resume 0)) s
        = fst (drawAndAnnounce cfg env now s)"
    by (simp add: run_def split_beta)
  then show ?thesis by blast
qed

lemma join_uninterrupted:
  "run cfg [Start (Join c gid now m), Resume 0] s = fst (join_action c gid now m s)"
  by (cases "join_begin c gid now s") (simp_all add: run_def join_action_split split_beta)

lemma announce_uninterrupted:
  "run cfg [Start (Announce c gid now ok), Resume 0] s = fst (announce_cmd cfg c gid now ok s)"
  by (cases "announce_cmd_begin cfg c gid s")
    (auto simp: run_def announce_cmd_split split_beta)

lemma step_uninterrupted: "\<exists>as. run cfg as s = fst (step cfg x s)"
proof (cases x)
  case (Join c gid now m)
  then show ?thesis using join_uninterrupted [of cfg c gid now m s] by auto
next
  case (Announce c gid now ok)
  then show ?thesis using announce_uninterrupted [of cfg c gid now ok s] by auto
next
  case (Tick env now)
  then show ?thesis using tick_uninterrupted [of cfg env now s] by auto
next
  case (Create c tg w e pr sp sd now sent edit_ok)
  then have "run cfg [Start x] s = fst (step cfg x s)" by (simp add: run_def split_beta)
  then show ?thesis by blast
next
  case (Ginfo c gid)
  then have "run cfg [Start x] s = fst (step cfg x s)" by (simp add: run_def split_beta)
  then show ?thesis by blast
next
  case (Proof c gid)
  then have "run cfg [Start x] s = fst (step cfg x s)" by (simp add: run_def split_beta)
  then show ?thesis by blast
next
  case (Cancel c gid reason now)
  then have "run cfg [Start x] s = fst (step cfg x s)" by (simp add: run_def split_beta)
  then show ?thesis by blast
qed


subsection \<open>The scheduler on one giveaway\<close>

lemma db_inv_not_ended_no_winners:
  assumes inv: "db_inv cfg s" and g: "get_giveaway s i = Some g" and ne: "\<not> ended g"
  shows "winners_of s i = []"
proof -
  have "w_giveaway_id w \<noteq> i" if w: "w \<in> set (winner_rows s)" for w
  proof
    assume eq: "w_giveaway_id w = i"
    from inv w obtain r where r: "r \<in> set (giveaways s)" "g_id r = w_giveaway_id w" "ended r"
      by (auto simp: db_inv_def list_all_iff list_ex_iff)
    from g have "g \<in> set (giveaways s)" "g_id g = i" using get_giveaway_SomeD by auto
    with r eq db_inv_distinct [OF inv] have "r = g" by (metis distinct_map inj_onD)
    with r ne show False by simp
  qed
  then show ?thesis by (auto simp: winners_of_def filter_empty_conv)
qed

text \<open>What the loop body leaves under the id of its own row.\<close>

lemma announce_from_db_at:
  assumes g: "get_giveaway s (g_id g) = Some r"
  shows "winners_of (fst (announce_from_db cfg env now g s)) (g_id g) = winners_of s (g_id g)"
    and "get_giveaway (fst (announce_from_db cfg env now g s)) (g_id g)
         = Some (if winners_of s (g_id g) \<noteq> [] \<and> send_ok env (g_id g)
                 then r\<lparr>announced := True, announced_at := Some now\<rparr> else r)"
    and "winners_of s (g_id g) \<noteq> [] \<Longrightarrow>
         SendMessage (chat_id r) (buildWinnersTextPublic r (winners_of s (g_id g))) (send_ok env (g_id g))
           \<in> set (snd (announce_from_db cfg env now g s))"
    and "winners_of s (g_id g) = [] \<Longrightarrow>
         snd (announce_from_db cfg env now g s)
           = [LogError ''AUTO_ANNOUNCE_NO_WINNERS_IN_DB'' (g_id g)]"
  by (simp_all add: announce_from_db_def Let_def g)

lemma draw_empty_at:
  assumes g: "get_giveaway s (g_id g) = Some g"
  shows "winners_of (fst (draw_empty cfg env now g s)) (g_id g) = winners_of s (g_id g)"
    and "get_giveaway (fst (draw_empty cfg env now g s)) (g_id g)
         = Some (if send_ok env (g_id g)
                 then g\<lparr>ended := True, ended_at := Some now, announced := True, announced_at := Some now\<rparr>
                 else g\<lparr>ended := True, ended_at := Some now\<rparr>)"
    and "SendMessage (chat_id g) (EmptyText (g_id g) (escHtml (prize g)) (escHtml (sponsor g)))
           (send_ok env (g_id g)) \<in> set (snd (draw_empty cfg env now g s))"
  by (simp_all add: draw_empty_def Let_def g)

lemma draw_winners_Inr:
  assumes "pickWinnersDeterministic cfg (seed g) (g_id g) ps (winners g) = Inr picked"
    and "tx_ok (tx_fault env (g_id g)) (Suc (length picked))"
  shows "draw_winners cfg env now g ps s
       = Inr (mark_ended now (g_id g) (add_winners (g_id g) picked s))"
  using assms by (simp add: draw_winners_eq)

lemma draw_winners_Inl:
  assumes "\<forall>picked. pickWinnersDeterministic cfg (seed g) (g_id g) ps (winners g) = Inr picked
      \<longrightarrow> \<not> tx_ok (tx_fault env (g_id g)) (Suc (length picked))"
  shows "\<exists>e. draw_winners cfg env now g ps s = Inl e"
  using assms by (auto simp: draw_winners_eq split: sum.splits)

lemma tick_events_of:
  assumes d: "distinct (map g_id (giveaways s))" and g: "get_giveaway s i = Some g"
    and due: "due now g"
  shows "set (snd (process_one cfg env now g s)) \<subseteq> set (snd (drawAndAnnounce cfg env now s))"
proof -
  from g have "g \<in> set (giveaways s)" using get_giveaway_SomeD by blast
  with due have "g \<in> set (pending now s)" by (simp add: pending_def due_def)
  then show ?thesis unfolding tick_events [OF d] by auto
qed

text \<open>
  C3. In a store the bot can reach, let the scheduler meet a due giveaway that is not ended
  and has at least one participant. The winners and \<open>ended = 1\<close> with \<open>ended_at\<close>
  are one unit of work: when it fails (the selector throws, a statement of the
  transaction or its COMMIT fails) the tick leaves no winners row of the giveaway and
  its row as it was, \<open>ended = 0\<close>; when it goes through, the rows of the selected
  winners are there and the giveaway is ended at the time of the tick. This is what a
  tick that runs without another handler in between leaves. The loop body up to its
  await, \<open>process_begin\<close>, which no other handler can interrupt, leaves the same: the
  store as it was when the unit of work fails, and with the selected winners and the
  giveaway ended at the time of the tick when it goes through.
\<close>

theorem draw_is_atomic:
  assumes s: "s = run cfg ops empty_db"
    and g: "get_giveaway s i = Some g"
    and due: "\<not> canceled g" "end_time g \<le> now" "\<not> announced g"
    and ne: "\<not> ended g"
    and ps: "participants_of s i \<noteq> []"
  shows "(case draw_winners cfg env now g (participants_of s i) s of
           Inl e \<Rightarrow>
             winners_of (fst (drawAndAnnounce cfg env now s)) i = [] \<and>
             get_giveaway (fst (drawAndAnnounce cfg env now s)) i = Some g
         | Inr s1 \<Rightarrow>
             (\<exists>picked.
                pickWinnersDeterministic cfg (seed g) i (participants_of s i) (winners g)
                  = Inr picked \<and>
                winners_of (fst (drawAndAnnounce cfg env now s)) i
                  = map (\<lambda>w. \<lparr>user_id = user_id w, name = name w\<rparr>) picked) \<and>
             (\<exists>g'. get_giveaway (fst (drawAndAnnounce cfg env now s)) i = Some g' \<and>
                   ended g' \<and> ended_at g' = Some now))
       \<and> (case draw_winners cfg env now g (participants_of s i) s of
             Inl e \<Rightarrow> fst (process_begin cfg env now g s) = s
           | Inr s1 \<Rightarrow>
               fst (process_begin cfg env now g s) = s1 \<and>
               (\<exists>picked.
                  pickWinnersDeterministic cfg (seed g) i (participants_of s i) (winners g)
                    = Inr picked \<and>
                  winners_of s1 i = map (\<lambda>w. \<lparr>user_id = user_id w, name = name w\<rparr>) picked) \<and>
               get_giveaway s1 i = Some (g\<lparr>ended := True, ended_at := Some now\<rparr>))"
proof -
  have inv: "db_inv cfg s" unfolding s by (rule db_inv_reachable)
  from g have i: "g_id g = i" using get_giveaway_SomeD by blast
  have gg: "get_giveaway s (g_id g) = Some g" using g i by simp
  have d: "due now g" using due by (simp add: due_def)
  have nw: "winners_of s i = []" using inv g ne by (rule db_inv_not_ended_no_winners)
  let ?s' = "fst (drawAndAnnounce cfg env now s)"
  have at: "same_at ?s' (fst (process_one cfg env now g s)) i"
    using tick_at [OF db_inv_distinct [OF inv] g, of cfg env now] d by simp
  have pb: "fst (process_begin cfg env now g s)
           = (case draw_winners cfg env now g (participants_of s i) s of
                Inl e \<Rightarrow> s | Inr s1 \<Rightarrow> s1)"
    using ne ps i by (simp add: process_begin_def Let_def split: sum.splits)
  have un: "case draw_winners cfg env now g (participants_of s i) s of
             Inl e \<Rightarrow> fst (process_begin cfg env now g s) = s
           | Inr s1 \<Rightarrow>
               fst (process_begin cfg env now g s) = s1 \<and>
               (\<exists>picked.
                  pickWinnersDeterministic cfg (seed g) i (participants_of s i) (winners g)
                    = Inr picked \<and>
                  winners_of s1 i = map (\<lambda>w. \<lparr>user_id = user_id w, name = name w\<rparr>) picked) \<and>
               get_giveaway s1 i = Some (g\<lparr>ended := True, ended_at := Some now\<rparr>)"
  proof (cases "draw_winners cfg env now g (participants_of s i) s")
    case (Inl e)
    with pb show ?thesis by simp
  next
    case (Inr s1)
    then obtain picked where
      pk: "pickWinnersDeterministic cfg (seed g) i (participants_of s i) (winners g) = Inr picked"
      and s1: "s1 = mark_ended now i (add_winners i picked s)"
      by (auto simp: draw_winners_eq i split: sum.splits if_splits)
    have "winners_of s1 i = map (\<lambda>w. \<lparr>user_id = user_id w, name = name w\<rparr>) picked"
      unfolding s1 using nw by simp
    moreover have "get_giveaway s1 i = Some (g\<lparr>ended := True, ended_at := Some now\<rparr>)"
      unfolding s1 using g by simp
    ultimately show ?thesis using Inr pb pk by simp
  qed
  have "case draw_winners cfg env now g (participants_of s i) s of
           Inl e \<Rightarrow>
             winners_of ?s' i = [] \<and> get_giveaway ?s' i = Some g
         | Inr s1 \<Rightarrow>
             (\<exists>picked.
                pickWinnersDeterministic cfg (seed g) i (participants_of s i) (winners g)
                  = Inr picked \<and>
                winners_of ?s' i = map (\<lambda>w. \<lparr>user_id = user_id w, name = name w\<rparr>) picked) \<and>
             (\<exists>g'. get_giveaway ?s' i = Some g' \<and> ended g' \<and> ended_at g' = Some now)"
  proof (cases cfg env now g s rule: process_one_cases)
    case announce
    with ne show ?thesis by simp
  next
    case empty
    with ps i show ?thesis by simp
  next
    case failed
    from draw_winners_Inl [OF failed(3)] obtain e
      where e: "draw_winners cfg env now g (participants_of s i) s = Inl e"
      unfolding i by blast
    from at failed(4) have "same_at ?s' s i" by simp
    with e nw g show ?thesis by (simp add: same_at_def)
  next
    case (drawn picked)
    let ?s1 = "mark_ended now (g_id g) (add_winners (g_id g) picked s)"
    let ?r = "g\<lparr>ended := True, ended_at := Some now\<rparr>"
    have e: "draw_winners cfg env now g (participants_of s i) s = Inr ?s1"
      using draw_winners_Inr [OF drawn(3,4)] by (simp add: i)
    have r: "get_giveaway ?s1 (g_id g) = Some ?r" by (simp add: gg)
    have w: "winners_of ?s' i = map (\<lambda>w. \<lparr>user_id = user_id w, name = name w\<rparr>) picked"
      using at announce_from_db_at(1) [OF r, where cfg = cfg and env = env and now = now] nw
      unfolding drawn(5) by (simp add: same_at_def i)
    have "\<exists>g'. get_giveaway ?s' i = Some g' \<and> ended g' \<and> ended_at g' = Some now"
      using at announce_from_db_at(2) [OF r, where cfg = cfg and env = env and now = now]
      unfolding drawn(5) by (simp add: same_at_def i)
    with e w drawn(3) i show ?thesis by auto
  qed
  then show ?thesis using un by (rule conjI)
qed

theorem draw_is_atomic_witness:
  "draw_winners demo_cfg (demo_env True (Some 1)) 60 demo_row
      (participants_of (run demo_cfg demo_open empty_db) 1) (run demo_cfg demo_open empty_db)
     = Inl StoreError
   \<and> winners_of (fst (drawAndAnnounce demo_cfg (demo_env True (Some 1)) 60
        (run demo_cfg demo_open empty_db))) 1 = []
   \<and> get_giveaway (fst (drawAndAnnounce demo_cfg (demo_env True (Some 1)) 60
        (run demo_cfg demo_open empty_db))) 1 = Some demo_row"
proof -
  let ?s = "run demo_cfg demo_open empty_db"
  have g: "get_giveaway ?s 1 = Some demo_row" by code_simp
  have h: "\<not> canceled demo_row" "end_time demo_row \<le> 60" "\<not> announced demo_row"
    "\<not> ended demo_row"
    by (simp_all add: demo_row_def)
  have ps: "participants_of ?s 1 \<noteq> []" by code_simp
  have e: "draw_winners demo_cfg (demo_env True (Some 1)) 60 demo_row (participants_of ?s 1) ?s
      = Inl StoreError"
    by code_simp
  from draw_is_atomic [OF refl g h ps, where env = "demo_env True (Some 1)"] e
  show ?thesis by simp
qed


subsection \<open>The seed and its hash under the operations\<close>

lemma find_append_Some: "find P xs = Some x \<Longrightarrow> find P (xs @ ys) = Some x"
  by (induction xs) (auto split: if_splits)

lemma get_giveaway_append:
  "get_giveaway s i = Some g \<Longrightarrow> get_giveaway (s\<lparr>giveaways := giveaways s @ [r]\<rparr>) i = Some g"
  by (simp add: get_giveaway_def find_append_Some)

lemma get_giveaway_participants_upd [simp]:
  "get_giveaway (s\<lparr>participants := ps\<rparr>) i = get_giveaway s i"
  by (simp add: get_giveaway_def)

lemma winners_of_tables [simp]:
  "winners_of (s\<lparr>participants := ps\<rparr>) i = winners_of s i"
  "winners_of (s\<lparr>giveaways := gs\<rparr>) i = winners_of s i"
  by (simp_all add: winners_of_def)

lemma reachable_participants_known:
  assumes inv: "db_inv cfg s"
  shows "participants_of s (lastInsertRowid s) = []"
proof -
  have "p_giveaway_id p \<noteq> lastInsertRowid s" if "p \<in> set (participants s)" for p
  proof -
    from inv that obtain g where "g \<in> set (giveaways s)" "g_id g = p_giveaway_id p"
      by (auto simp: db_inv_def list_all_iff list_ex_iff)
    then have "p_giveaway_id p \<in> g_id ` set (giveaways s)" by (metis imageI)
    with lastInsertRowid_fresh [of s] show ?thesis by metis
  qed
  then show ?thesis by (auto simp: participants_of_def filter_empty_conv)
qed

lemma get_giveaway_fresh: "get_giveaway s (lastInsertRowid s) = None"
proof -
  have "g_id r \<noteq> lastInsertRowid s" if "r \<in> set (giveaways s)" for r
    using lastInsertRowid_fresh [of s] that by (metis imageI)
  then show ?thesis by (auto simp: get_giveaway_def find_None_iff)
qed

lemma find_append_None:
  "find P xs = None \<Longrightarrow> find P (xs @ [r]) = (if P r then Some r else None)"
  by (induction xs) (auto split: if_splits)

lemma get_giveaway_created:
  "get_giveaway s j = None \<Longrightarrow>
   get_giveaway (s\<lparr>giveaways := giveaways s @ [r]\<rparr>) j = (if g_id r = j then Some r else None)"
  by (simp add: get_giveaway_def find_append_None)

text \<open>No write of a handler touches the seed or the hash: \<open>seed_at\<close> is the same after
  every piece of every handler, whatever row the piece was handed.\<close>

lemma seed_at_update:
  assumes "\<And>r. g_id (f r) = g_id r" "\<And>r. seed (f r) = seed r" "\<And>r. seed_hash (f r) = seed_hash r"
  shows "seed_at (update_giveaway j f s) i = seed_at s i"
  unfolding seed_at_def get_giveaway_update [of f, OF assms(1)]
  by (cases "get_giveaway s j") (simp_all add: assms)

lemma seed_at_mark [simp]:
  "seed_at (mark_ended now j s) i = seed_at s i"
  "seed_at (mark_announced now j s) i = seed_at s i"
  unfolding mark_ended_def mark_announced_def by (rule seed_at_update; simp)+

lemma seed_at_tables [simp]:
  "seed_at (add_winners j picked s) i = seed_at s i"
  "seed_at (s\<lparr>participants := ps\<rparr>) i = seed_at s i"
  by (simp_all add: seed_at_def add_winners_def get_giveaway_def)

lemma seed_at_process_begin:
  "seed_at (fst (process_begin cfg env now g s)) i = seed_at s i"
proof (cases "draw_winners cfg env now g (participants_of s (g_id g)) s")
  case (Inl e)
  then show ?thesis by (simp add: process_begin_def Let_def)
next
  case (Inr s1)
  from draw_winners_InrD [OF Inr] obtain picked
    where "s1 = mark_ended now (g_id g) (add_winners (g_id g) picked s)" by blast
  then have "seed_at s1 i = seed_at s i" by simp
  then show ?thesis using Inr by (simp add: process_begin_def Let_def)
qed

lemma seed_at_process_finish:
  "seed_at (fst (process_finish cfg env now g a s)) i = seed_at s i"
  by (cases a) (simp_all add: process_finish_def Let_def split: option.splits)

lemma seed_at_tick_loop:
  "seed_at (fst (tick_loop cfg env now gs s)) i = seed_at s i"
proof (induction gs arbitrary: s)
  case Nil
  then show ?case by simp
next
  case (Cons g gs)
  obtain s1 e1 aw where p: "process_begin cfg env now g s = (s1, e1, aw)"
    by (cases "process_begin cfg env now g s") auto
  have s1: "seed_at s1 i = seed_at s i"
    using seed_at_process_begin [of cfg env now g s i] p by simp
  show ?case
  proof (cases aw)
    case (Some a)
    with p s1 show ?thesis by simp
  next
    case None
    with p s1 Cons.IH [of s1] show ?thesis by (simp add: split_beta)
  qed
qed

lemma seed_at_process_all:
  "seed_at (fst (process_all cfg env now gs s)) i = seed_at s i"
proof (induction gs arbitrary: s)
  case Nil
  then show ?case by simp
next
  case (Cons g gs)
  have "seed_at (fst (process_one cfg env now g s)) i = seed_at s i"
    unfolding process_one_split
    using seed_at_process_begin [of cfg env now g s i]
      seed_at_process_finish [of cfg env now g _ "fst (process_begin cfg env now g s)" i]
    by (simp add: split_beta split: option.splits)
  with Cons.IH [of "fst (process_one cfg env now g s)"] show ?case
    by (simp add: split_beta)
qed

lemma seed_at_join_finish:
  "seed_at (fst (join_finish c gid g now m s)) i = seed_at s i"
  by (simp add: join_finish_def Let_def)

lemma seed_at_announce_cmd_finish:
  "seed_at (fst (announce_cmd_finish cfg c gid g ws now ok s)) i = seed_at s i"
  by (simp add: announce_cmd_finish_def)

lemma seed_at_cancel_cmd:
  "seed_at (fst (cancel_cmd cfg c gid reason now s)) i = seed_at s i"
  unfolding cancel_cmd_fst by (simp add: seed_at_update)

lemma seed_at_create:
  assumes "seed_at s i = Some v"
  shows "seed_at (fst (createGiveawayAndPost cfg c tg w e pr sp sd now sent ok s)) i = Some v"
proof (cases sent)
  case None
  then show ?thesis using assms by (simp add: createGiveawayAndPost_def Let_def)
next
  case (Some mid)
  from assms obtain g where "get_giveaway s i = Some g" "v = (seed g, seed_hash g)"
    by (auto simp: seed_at_def)
  then show ?thesis
    using Some by (simp add: createGiveawayAndPost_def Let_def seed_at_def get_giveaway_append)
qed

lemma seed_at_step:
  assumes "seed_at s i = Some v"
  shows "seed_at (fst (step cfg x s)) i = Some v"
proof (cases x)
  case (Create c tg w e pr sp sd now sent edit_ok)
  then show ?thesis using seed_at_create [OF assms] by simp
next
  case (Join c gid now m)
  then show ?thesis
    using assms seed_at_join_finish [of c gid _ now m s i]
    by (simp add: join_action_split split: sum.splits)
next
  case (Ginfo c gid)
  then show ?thesis using assms by (simp add: ginfo_cmd_def Let_def split: option.splits)
next
  case (Proof c gid)
  then show ?thesis using assms by (simp add: proof_cmd_def Let_def split: option.splits)
next
  case (Cancel c gid reason now)
  then show ?thesis using assms by (simp add: seed_at_cancel_cmd)
next
  case (Announce c gid now ok)
  then show ?thesis
    using assms seed_at_announce_cmd_finish [of cfg c gid _ _ now ok s i]
    by (simp add: announce_cmd_split split: sum.splits prod.splits)
next
  case (Tick env now)
  then show ?thesis using assms by (simp add: drawAndAnnounce_def seed_at_process_all)
qed

lemma seed_at_resume:
  "seed_at (store (fst (resume cfg t z))) i = seed_at (store z) i"
proof (cases t)
  case (TickTask env now g a gs)
  then show ?thesis
    using seed_at_process_finish [of cfg env now g a "store z" i]
      seed_at_tick_loop [of cfg env now gs "fst (process_finish cfg env now g a (store z))" i]
    by (simp add: split_beta)
next
  case (JoinTask c gid g now m)
  then show ?thesis using seed_at_join_finish [of c gid g now m "store z" i]
    by (simp add: split_beta)
next
  case (AnnounceTask c gid g ws now ok)
  then show ?thesis using seed_at_announce_cmd_finish [of cfg c gid g ws now ok "store z" i]
    by (simp add: split_beta)
qed

lemma seed_at_act:
  assumes "seed_at (store z) i = Some v"
  shows "seed_at (store (fst (act cfg a z))) i = Some v"
proof (cases a)
  case (Resume n)
  then show ?thesis
    using assms
      seed_at_resume [of cfg "tasks z ! n" "z\<lparr>tasks := take n (tasks z) @ drop (Suc n) (tasks z)\<rparr>" i]
    by simp
next
  case (Start x)
  show ?thesis
  proof (cases x)
    case (Join c gid now m)
    then show ?thesis using Start assms by (simp split: sum.splits)
  next
    case (Announce c gid now ok)
    then show ?thesis using Start assms by (simp split: sum.splits prod.splits)
  next
    case (Tick env now)
    then show ?thesis
      using Start assms seed_at_tick_loop [of cfg env now "pending now (store z)" "store z" i]
      by (simp add: split_beta)
  next
    case (Create c tg w e pr sp sd now sent edit_ok)
    then show ?thesis using Start seed_at_step [OF assms, of cfg x] by (simp add: split_beta)
  next
    case (Ginfo c gid)
    then show ?thesis using Start seed_at_step [OF assms, of cfg x] by (simp add: split_beta)
  next
    case (Proof c gid)
    then show ?thesis using Start seed_at_step [OF assms, of cfg x] by (simp add: split_beta)
  next
    case (Cancel c gid reason now)
    then show ?thesis using Start seed_at_step [OF assms, of cfg x] by (simp add: split_beta)
  qed
qed

lemma seed_at_exec:
  "seed_at (store z) i = Some v \<Longrightarrow> seed_at (store (exec cfg as z)) i = Some v"
  by (induction as arbitrary: z) (simp_all add: seed_at_act)

lemma seed_at_SomeD:
  assumes "seed_at s i = Some (seed g, seed_hash g)"
  shows "\<exists>g'. get_giveaway s i = Some g' \<and> seed g' = seed g \<and> seed_hash g' = seed_hash g"
  using assms by (auto simp: seed_at_def)


subsection \<open>The commitment\<close>

text \<open>
  C6. In a store the bot can reach, every giveaway has a seed and \<open>seed_hash\<close> is the
  SHA-256 of it; no operation changes the seed or the hash of a stored giveaway; every
  participant row belongs to a stored giveaway; and \<^verbatim>\<open>createGiveawayAndPost\<close> stores
  the seed and its hash in the one INSERT of a giveaway whose id is new, that is open and
  has no participant yet. The seed and the hash of a stored giveaway also stay through
  every further run of the event loop, with the handlers interleaved at their awaits in
  any way and whatever the handlers in waiting hold.
\<close>

theorem seed_hash_commits_to_seed:
  assumes s: "s = run cfg ops empty_db"
  shows "(\<forall>g \<in> set (giveaways s). \<exists>sd. seed g = Some sd \<and> seed_hash g = Some (sha256Hex cfg sd))
       \<and> (\<forall>g. get_giveaway s i = Some g \<longrightarrow>
             (\<exists>g'. get_giveaway (fst (step cfg x s)) i = Some g' \<and>
                   seed g' = seed g \<and> seed_hash g' = seed_hash g))
       \<and> (\<forall>p \<in> set (participants s). \<exists>g. get_giveaway s (p_giveaway_id p) = Some g)
       \<and> get_giveaway s (lastInsertRowid s) = None
       \<and> (\<exists>g. get_giveaway (fst (createGiveawayAndPost cfg c tg w e pr sp sd now (Some mid) ok s))
                 (lastInsertRowid s) = Some g \<and>
               seed g = Some sd \<and> seed_hash g = Some (sha256Hex cfg sd) \<and> \<not> ended g)
       \<and> participants_of (fst (createGiveawayAndPost cfg c tg w e pr sp sd now (Some mid) ok s))
            (lastInsertRowid s) = []
       \<and> (\<forall>g. get_giveaway s i = Some g \<longrightarrow>
             (\<exists>g'. get_giveaway (store (exec cfg as \<lparr>store = s, tasks = ts\<rparr>)) i = Some g' \<and>
                   seed g' = seed g \<and> seed_hash g' = seed_hash g))"
proof -
  have inv: "db_inv cfg s" unfolding s by (rule db_inv_reachable)
  have one: "\<exists>sd. seed g = Some sd \<and> seed_hash g = Some (sha256Hex cfg sd)"
    if "g \<in> set (giveaways s)" for g
    using db_inv_row [OF inv that] by (auto simp: row_inv_def)
  have two: "\<exists>g'. get_giveaway (fst (step cfg x s)) i = Some g' \<and>
                   seed g' = seed g \<and> seed_hash g' = seed_hash g"
    if g: "get_giveaway s i = Some g" for g
  proof -
    from g have "seed_at s i = Some (seed g, seed_hash g)" by (simp add: seed_at_def)
    then have "seed_at (fst (step cfg x s)) i = Some (seed g, seed_hash g)"
      by (rule seed_at_step)
    then show ?thesis by (rule seed_at_SomeD)
  qed
  have six: "\<exists>g'. get_giveaway (store (exec cfg as \<lparr>store = s, tasks = ts\<rparr>)) i = Some g' \<and>
                   seed g' = seed g \<and> seed_hash g' = seed_hash g"
    if g: "get_giveaway s i = Some g" for g
  proof -
    from g have "seed_at (store \<lparr>store = s, tasks = ts\<rparr>) i = Some (seed g, seed_hash g)"
      by (simp add: seed_at_def)
    then have "seed_at (store (exec cfg as \<lparr>store = s, tasks = ts\<rparr>)) i
        = Some (seed g, seed_hash g)"
      by (rule seed_at_exec)
    then show ?thesis by (rule seed_at_SomeD)
  qed
  have three: "\<exists>g. get_giveaway s (p_giveaway_id p) = Some g" if "p \<in> set (participants s)" for p
  proof -
    from inv that obtain g where "g \<in> set (giveaways s)" "g_id g = p_giveaway_id p"
      by (auto simp: db_inv_def list_all_iff list_ex_iff)
    then show ?thesis
      using get_giveaway_mem [OF db_inv_distinct [OF inv]] by metis
  qed
  have four: "\<exists>g. get_giveaway (fst (createGiveawayAndPost cfg c tg w e pr sp sd now (Some mid) ok s))
                 (lastInsertRowid s) = Some g \<and>
               seed g = Some sd \<and> seed_hash g = Some (sha256Hex cfg sd) \<and> \<not> ended g"
    by (simp add: createGiveawayAndPost_def Let_def get_giveaway_created [OF get_giveaway_fresh])
  have five: "participants_of (fst (createGiveawayAndPost cfg c tg w e pr sp sd now (Some mid) ok s))
            (lastInsertRowid s) = []"
    using reachable_participants_known [OF inv]
    by (simp add: createGiveawayAndPost_def Let_def participants_of_def)
  show ?thesis
    using one two three four five six get_giveaway_fresh by (intro conjI ballI allI impI)
qed

theorem seed_hash_commits_to_seed_witness:
  "(\<exists>sd. seed demo_row = Some sd \<and> seed_hash demo_row = Some (sha256Hex demo_cfg sd))
   \<and> (\<exists>g'. get_giveaway (fst (step demo_cfg (Cancel demo_admin 1 ''late'' 30)
          (run demo_cfg demo_open empty_db))) 1 = Some g' \<and>
        seed g' = seed demo_row \<and> seed_hash g' = seed_hash demo_row)"
proof -
  let ?s = "run demo_cfg demo_open empty_db"
  have gs: "demo_row \<in> set (giveaways ?s)" by code_simp
  have g: "get_giveaway ?s 1 = Some demo_row" by code_simp
  from seed_hash_commits_to_seed [OF refl, where cfg = demo_cfg and ops = demo_open and i = 1
      and x = "Cancel demo_admin 1 ''late'' 30"] gs g
  show ?thesis by blast
qed

subsection \<open>A giveaway that nobody joined\<close>

text \<open>When the publish of the notice succeeds, the tick ends the giveaway without a
  winners row, sends the notice and marks it announced.\<close>

lemma no_entrants_published_when_send_succeeds:
  assumes inv: "db_inv cfg s" and g: "get_giveaway s i = Some g"
    and d: "\<not> canceled g" "end_time g \<le> now" "\<not> announced g"
    and ne: "\<not> ended g" and ps: "participants_of s i = []" and ok: "send_ok env i"
  shows "get_giveaway (fst (drawAndAnnounce cfg env now s)) i
           = Some (g\<lparr>ended := True, ended_at := Some now, announced := True,
                announced_at := Some now\<rparr>)"
    and "winners_of (fst (drawAndAnnounce cfg env now s)) i = []"
    and "SendMessage (chat_id g) (EmptyText i (escHtml (prize g)) (escHtml (sponsor g))) True
           \<in> set (snd (drawAndAnnounce cfg env now s))"
proof -
  from g have i: "g_id g = i" using get_giveaway_SomeD by blast
  have gg: "get_giveaway s (g_id g) = Some g" using g i by simp
  have du: "due now g" using d by (simp add: due_def)
  have p: "process_one cfg env now g s = draw_empty cfg env now g s"
    using ne ps by (simp add: process_one_def i)
  have at: "same_at (fst (drawAndAnnounce cfg env now s)) (fst (draw_empty cfg env now g s)) i"
    using tick_at [OF db_inv_distinct [OF inv] g, of cfg env now] du p by simp
  have w: "winners_of s i = []" using inv g ne by (rule db_inv_not_ended_no_winners)
  note a = draw_empty_at [OF gg, where cfg = cfg and env = env and now = now]
  from at a(2) ok show "get_giveaway (fst (drawAndAnnounce cfg env now s)) i
           = Some (g\<lparr>ended := True, ended_at := Some now, announced := True,
                announced_at := Some now\<rparr>)"
    by (simp add: same_at_def i)
  from at a(1) w show "winners_of (fst (drawAndAnnounce cfg env now s)) i = []"
    by (simp add: same_at_def i)
  from tick_events_of [OF db_inv_distinct [OF inv] g du, of cfg env] a(3) ok p
  show "SendMessage (chat_id g) (EmptyText i (escHtml (prize g)) (escHtml (sponsor g))) True
           \<in> set (snd (drawAndAnnounce cfg env now s))"
    by (auto simp: i)
qed

text \<open>Once a giveaway is ended without a winners row, neither a tick nor the manual
  /announce changes it or publishes for it, whatever the gateway does.\<close>

lemma no_entrants_stays_unannounced:
  assumes inv: "db_inv cfg s" and g: "get_giveaway s i = Some g"
    and e: "ended g" and w: "winners_of s i = []"
  shows "get_giveaway (fst (drawAndAnnounce cfg env now s)) i = Some g"
    and "winners_of (fst (drawAndAnnounce cfg env now s)) i = []"
    and "snd (process_one cfg env now g s) = [LogError ''AUTO_ANNOUNCE_NO_WINNERS_IN_DB'' i]"
    and "fst (announce_cmd cfg c i now ok s) = s"
proof -
  from g have i: "g_id g = i" using get_giveaway_SomeD by blast
  have gg: "get_giveaway s (g_id g) = Some g" using g i by simp
  have p: "process_one cfg env now g s = announce_from_db cfg env now g s"
    using e by (simp add: process_one_def)
  have at: "same_at (fst (drawAndAnnounce cfg env now s))
      (if due now g then fst (process_one cfg env now g s) else s) i"
    by (rule tick_at [OF db_inv_distinct [OF inv] g])
  have r: "get_giveaway (fst (process_one cfg env now g s)) i = Some g"
    "winners_of (fst (process_one cfg env now g s)) i = []"
    using announce_from_db_at(1,2) [OF gg, where cfg = cfg and env = env and now = now] w
    unfolding p i by simp_all
  from at r g w show "get_giveaway (fst (drawAndAnnounce cfg env now s)) i = Some g"
    by (simp add: same_at_def split: if_splits)
  from at r g w show "winners_of (fst (drawAndAnnounce cfg env now s)) i = []"
    by (simp add: same_at_def split: if_splits)
  show "snd (process_one cfg env now g s) = [LogError ''AUTO_ANNOUNCE_NO_WINNERS_IN_DB'' i]"
    using announce_from_db_at(4) [OF gg, where cfg = cfg and env = env and now = now] w
    unfolding p i by simp
  show "fst (announce_cmd cfg c i now ok s) = s"
    using w by (simp add: announce_cmd_fst)
qed

text \<open>
  C8, at the input where the code departs from it. A due giveaway without participants;
  the tick at 60 marks it ended and its publish of the notice fails. The tick at 90, with
  the gateway up again, skips the draw (the giveaway is ended), finds no winners row,
  logs and goes on: no notice is sent and \<open>announced\<close> stays 0. The manual /announce
  refuses too, for want of winners.
\<close>

theorem no_entrants_notice_is_not_retried:
  "drawAndAnnounce demo_cfg (demo_env False None) 60 (run demo_cfg demo_lonely empty_db)
     = (\<lparr>giveaways = [demo_row\<lparr>ended := True, ended_at := Some 60\<rparr>],
         participants = [], winner_rows = []\<rparr>,
        [SendMessage (- 100) (EmptyText 1 ''prize'' ''sponsor'') False,
         LogError ''AUTO_ANNOUNCE_FAIL'' 1])
   \<and> drawAndAnnounce demo_cfg (demo_env True None) 90
        \<lparr>giveaways = [demo_row\<lparr>ended := True, ended_at := Some 60\<rparr>],
         participants = [], winner_rows = []\<rparr>
     = (\<lparr>giveaways = [demo_row\<lparr>ended := True, ended_at := Some 60\<rparr>],
         participants = [], winner_rows = []\<rparr>,
        [LogError ''AUTO_ANNOUNCE_NO_WINNERS_IN_DB'' 1])
   \<and> announce_cmd demo_cfg demo_admin 1 95 True
        \<lparr>giveaways = [demo_row\<lparr>ended := True, ended_at := Some 60\<rparr>],
         participants = [], winner_rows = []\<rparr>
     = (\<lparr>giveaways = [demo_row\<lparr>ended := True, ended_at := Some 60\<rparr>],
         participants = [], winner_rows = []\<rparr>,
        [Reply demo_admin (Plain AnnounceNoWinners)])"
  by code_simp

subsection \<open>Proof views\<close>

lemma proofs_private_append [simp]:
  "proofs_private cfg (xs @ ys) \<longleftrightarrow> proofs_private cfg xs \<and> proofs_private cfg ys"
  by (simp add: proofs_private_def)

lemma proofs_private_dms [simp]:
  "proofs_private cfg (map (\<lambda>a. SendBestEffort a t) (ADMINS cfg))"
  by (simp add: proofs_private_def list_all_iff)

lemma proofs_private_simps [simp]:
  "proofs_private cfg []"
  "proofs_private cfg (ev # evs) \<longleftrightarrow>
     (event_proof ev = None \<or> private_to_operator cfg ev) \<and> proofs_private cfg evs"
  by (simp_all add: proofs_private_def)

lemma announce_from_db_private: "proofs_private cfg (snd (announce_from_db cfg env now g s))"
  by (simp add: announce_from_db_def Let_def buildWinnersTextPublic_def split: option.splits)

lemma draw_empty_private: "proofs_private cfg (snd (draw_empty cfg env now g s))"
  by (simp add: draw_empty_def Let_def split: option.splits)

lemma process_one_private: "proofs_private cfg (snd (process_one cfg env now g s))"
  by (cases cfg env now g s rule: process_one_cases)
    (simp_all add: announce_from_db_private draw_empty_private)

lemma process_all_private: "proofs_private cfg (snd (process_all cfg env now gs s))"
  by (induction gs arbitrary: s) (simp_all add: split_beta Let_def process_one_private)

lemma step_private: "proofs_private cfg (snd (step cfg x s))"
proof (cases x)
  case (Create c tg w e pr sp sd now sent edit_ok)
  then show ?thesis
    by (cases sent) (simp_all add: createGiveawayAndPost_def Let_def buildGiveawayTextPublic_def)
next
  case (Join c gid now m)
  then show ?thesis
    by (simp add: join_action_def Let_def buildGiveawayTextPublic_def split: option.splits)
next
  case (Ginfo c gid)
  then show ?thesis
    by (simp add: ginfo_cmd_def Let_def split: option.splits)
next
  case (Proof c gid)
  then show ?thesis
    by (simp add: proof_cmd_def Let_def split: option.splits)
next
  case (Cancel c gid reason now)
  then show ?thesis
    by (simp add: cancel_cmd_def Let_def buildCanceledTextPublic_def split: option.splits)
next
  case (Announce c gid now ok)
  then show ?thesis
    by (simp add: announce_cmd_def Let_def buildWinnersTextPublic_def split: option.splits)
next
  case (Tick env now)
  then show ?thesis by (simp add: drawAndAnnounce_def process_all_private)
qed

lemma process_begin_private: "proofs_private cfg (fst (snd (process_begin cfg env now g s)))"
  by (simp add: process_begin_def announce_begin_def Let_def split: sum.splits option.splits)

lemma process_finish_private: "proofs_private cfg (snd (process_finish cfg env now g a s))"
  by (cases a)
    (simp_all add: process_finish_def Let_def buildWinnersTextPublic_def split: option.splits)

lemma tick_loop_private: "proofs_private cfg (fst (snd (tick_loop cfg env now gs s)))"
proof (induction gs arbitrary: s)
  case Nil
  then show ?case by simp
next
  case (Cons g gs)
  obtain s1 e1 aw where p: "process_begin cfg env now g s = (s1, e1, aw)"
    by (cases "process_begin cfg env now g s") auto
  have e1: "proofs_private cfg e1" using process_begin_private [of cfg env now g s] p by simp
  show ?case
  proof (cases aw)
    case (Some a)
    with p e1 show ?thesis by simp
  next
    case None
    with p e1 Cons.IH [of s1] show ?thesis by (simp add: split_beta)
  qed
qed

lemma resume_private: "proofs_private cfg (snd (resume cfg t z))"
proof (cases t)
  case (TickTask env now g a gs)
  then show ?thesis
    using process_finish_private [of cfg env now g a "store z"]
      tick_loop_private [of cfg env now gs "fst (process_finish cfg env now g a (store z))"]
    by (simp add: split_beta)
next
  case (JoinTask c gid g now m)
  then show ?thesis
    by (simp add: split_beta join_finish_def Let_def buildGiveawayTextPublic_def)
next
  case (AnnounceTask c gid g ws now ok)
  then show ?thesis
    by (simp add: split_beta announce_cmd_finish_def buildWinnersTextPublic_def)
qed

lemma act_private: "proofs_private cfg (snd (act cfg a z))"
proof (cases a)
  case (Resume n)
  then show ?thesis by (simp add: resume_private)
next
  case (Start x)
  show ?thesis
  proof (cases x)
    case (Join c gid now m)
    then show ?thesis
      using Start by (simp add: join_begin_def split: sum.splits option.splits if_splits)
  next
    case (Announce c gid now ok)
    then show ?thesis
      using Start
      by (auto simp: announce_cmd_begin_def Let_def split: sum.splits option.splits if_splits)
  next
    case (Tick env now)
    then show ?thesis
      using Start tick_loop_private [of cfg env now "pending now (store z)" "store z"]
      by (simp add: split_beta)
  next
    case (Create c tg w e pr sp sd now sent edit_ok)
    then show ?thesis using Start step_private [of cfg x "store z"] by (simp add: split_beta)
  next
    case (Ginfo c gid)
    then show ?thesis using Start step_private [of cfg x "store z"] by (simp add: split_beta)
  next
    case (Proof c gid)
    then show ?thesis using Start step_private [of cfg x "store z"] by (simp add: split_beta)
  next
    case (Cancel c gid reason now)
    then show ?thesis using Start step_private [of cfg x "store z"] by (simp add: split_beta)
  qed
qed

lemma escHtml_hex:
  assumes "set sd \<subseteq> set ''0123456789abcdef''"
  shows "escHtml sd = sd"
  using assms by (induction sd) (auto simp: escHtml_def esc_char_def)

lemma escHtml_placeholder: "escHtml seed_placeholder = seed_placeholder"
  by (simp add: escHtml_def esc_char_def seed_placeholder_def)

lemma hex_not_placeholder:
  assumes "set sd \<subseteq> set ''0123456789abcdef''"
  shows "sd \<noteq> seed_placeholder"
proof
  assume "sd = seed_placeholder"
  then have "CHR ''C'' \<in> set sd" by (simp add: seed_placeholder_def)
  with assms show False by auto
qed

text \<open>
  C7. The seed field of every proof view is the seed (HTML-escaped, or \<open>N/A\<close> when the
  row has none) when the giveaway is ended and not canceled, and the placeholder
  otherwise; the commitment field is the stored hash in every state. For a seed as
  \<^verbatim>\<open>makeSeed\<close> makes it (hex digits), the field is the raw seed if and only if
  \<open>ended = 1\<close> and \<open>canceled = 0\<close>. Whatever the operation and the store, a message that
  carries a proof view goes to the private chat of an admin: for a handler that runs on
  its own, and for every step of the event loop, a handler starting or a waiting one going
  on, whatever the store and the handlers in waiting.
\<close>

theorem proof_view_reveals_seed_only_when_drawn:
  "pv_seed (buildProofText g)
     = (if ended g \<and> \<not> canceled g then escHtml (or_default (seed g) ''N/A'')
        else seed_placeholder)
   \<and> pv_commit (buildProofText g) = escHtml (or_default (seed_hash g) ''N/A'')
   \<and> (seed g = Some sd \<and> sd \<noteq> [] \<and> set sd \<subseteq> set ''0123456789abcdef'' \<longrightarrow>
        (pv_seed (buildProofText g) = sd \<longleftrightarrow> ended g \<and> \<not> canceled g))
   \<and> (\<forall>ev \<in> set (snd (step cfg x s)).
        event_proof ev \<noteq> None \<longrightarrow> private_to_operator cfg ev)
   \<and> (\<forall>ev \<in> set (snd (act cfg a z)).
        event_proof ev \<noteq> None \<longrightarrow> private_to_operator cfg ev)"
proof (intro conjI impI ballI)
  show "pv_seed (buildProofText g)
     = (if ended g \<and> \<not> canceled g then escHtml (or_default (seed g) ''N/A'')
        else seed_placeholder)"
    by (simp add: buildProofText_def escHtml_placeholder)
next
  show "pv_commit (buildProofText g) = escHtml (or_default (seed_hash g) ''N/A'')"
    by (simp add: buildProofText_def)
next
  assume a: "seed g = Some sd \<and> sd \<noteq> [] \<and> set sd \<subseteq> set ''0123456789abcdef''"
  then have "escHtml sd = sd" "sd \<noteq> seed_placeholder"
    using escHtml_hex hex_not_placeholder by blast+
  with a show "pv_seed (buildProofText g) = sd \<longleftrightarrow> ended g \<and> \<not> canceled g"
    by (auto simp: buildProofText_def escHtml_placeholder or_default_def)
next
  fix ev
  assume "ev \<in> set (snd (step cfg x s))" "event_proof ev \<noteq> None"
  with step_private [of cfg x s] show "private_to_operator cfg ev"
    by (auto simp: proofs_private_def list_all_iff)
next
  fix ev
  assume "ev \<in> set (snd (act cfg a z))" "event_proof ev \<noteq> None"
  with act_private [of cfg a z] show "private_to_operator cfg ev"
    by (auto simp: proofs_private_def list_all_iff)
qed

theorem proof_view_reveals_seed_only_when_drawn_witness:
  "pv_seed (buildProofText (demo_row\<lparr>ended := True\<rparr>)) = ''ab''
   \<and> pv_seed (buildProofText demo_row) = seed_placeholder
   \<and> pv_commit (buildProofText demo_row) = ''#ab''
   \<and> private_to_operator demo_cfg (Reply demo_admin (ProofText (buildProofText demo_row)))"
proof -
  let ?s = "run demo_cfg demo_open empty_db"
  have h: "seed (demo_row\<lparr>ended := True\<rparr>) = Some ''ab'' \<and> ''ab'' \<noteq> [] \<and>
      set ''ab'' \<subseteq> set ''0123456789abcdef''"
    by (simp add: demo_row_def)
  have f: "ended (demo_row\<lparr>ended := True\<rparr>) \<and> \<not> canceled (demo_row\<lparr>ended := True\<rparr>)"
    "\<not> ended demo_row" "seed_hash demo_row = Some ''#ab''"
    by (simp_all add: demo_row_def)
  have e: "Reply demo_admin (ProofText (buildProofText demo_row))
      \<in> set (snd (step demo_cfg (Proof demo_admin 1) ?s))"
    by code_simp
  have p: "event_proof (Reply demo_admin (ProofText (buildProofText demo_row))) \<noteq> None"
    by simp
  have c: "escHtml ''#ab'' = ''#ab''" by code_simp
  from proof_view_reveals_seed_only_when_drawn [where g = "demo_row\<lparr>ended := True\<rparr>"
      and sd = "''ab''" and cfg = demo_cfg and x = "Proof demo_admin 1" and s = ?s
      and a = "Resume 0" and z = "\<lparr>store = empty_db, tasks = []\<rparr>"]
    proof_view_reveals_seed_only_when_drawn [where g = demo_row
      and sd = "''ab''" and cfg = demo_cfg and x = "Proof demo_admin 1" and s = ?s
      and a = "Resume 0" and z = "\<lparr>store = empty_db, tasks = []\<rparr>"]
    h f e p c
  show ?thesis by (auto simp: or_default_def)
qed


subsection \<open>Creation\<close>

text \<open>
  C10. \<^verbatim>\<open>createGiveawayAndPost\<close> writes the giveaway only after the group post went
  out: when the send fails the store is unchanged and the operator gets the failure
  reply; a store with a new giveaway means a successful post; the write is the one INSERT
  of an open giveaway with the next id and the id of the posted message, the other
  tables are untouched; and the success reply is only given after a successful post.
\<close>

theorem create_inserts_after_post:
  "(sent = None \<longrightarrow>
      createGiveawayAndPost cfg c tg w e pr sp sd now sent ok s
        = (s, [SendMessage tg (buildGiveawayTextPublic pr sp w e 0) False,
               Reply c (Plain CreateFailed)]))
   \<and> (giveaways (fst (createGiveawayAndPost cfg c tg w e pr sp sd now sent ok s)) \<noteq> giveaways s \<longrightarrow>
        sent \<noteq> None \<and>
        SendMessage tg (buildGiveawayTextPublic pr sp w e 0) True
          \<in> set (snd (createGiveawayAndPost cfg c tg w e pr sp sd now sent ok s)))
   \<and> (sent \<noteq> None \<longrightarrow>
        (\<exists>row. giveaways (fst (createGiveawayAndPost cfg c tg w e pr sp sd now sent ok s))
                 = giveaways s @ [row] \<and>
               g_id row = lastInsertRowid s \<and> message_id row = the sent \<and> chat_id row = tg \<and>
               \<not> ended row \<and> \<not> canceled row \<and> \<not> announced row))
   \<and> participants (fst (createGiveawayAndPost cfg c tg w e pr sp sd now sent ok s)) = participants s
   \<and> winner_rows (fst (createGiveawayAndPost cfg c tg w e pr sp sd now sent ok s)) = winner_rows s
   \<and> (Reply c (Plain (CreateDone gid t))
        \<in> set (snd (createGiveawayAndPost cfg c tg w e pr sp sd now sent ok s)) \<longrightarrow>
        sent \<noteq> None \<and> ok)"
  by (cases sent) (simp_all add: createGiveawayAndPost_def Let_def)

theorem create_inserts_after_post_witness:
  "createGiveawayAndPost demo_cfg demo_admin (- 100) 1 50 ''prize'' ''sponsor'' ''ab'' 10 None True
      empty_db
     = (empty_db,
        [SendMessage (- 100) (buildGiveawayTextPublic ''prize'' ''sponsor'' 1 50 0) False,
         Reply demo_admin (Plain CreateFailed)])
   \<and> giveaways (fst (createGiveawayAndPost demo_cfg demo_admin (- 100) 1 50 ''prize'' ''sponsor''
        ''ab'' 10 (Some 900) True empty_db)) = [demo_row]"
proof -
  have r: "giveaways (fst (createGiveawayAndPost demo_cfg demo_admin (- 100) 1 50 ''prize''
        ''sponsor'' ''ab'' 10 (Some 900) True empty_db)) = [demo_row]"
    by code_simp
  from create_inserts_after_post [where sent = None and cfg = demo_cfg and c = demo_admin
      and tg = "- 100" and w = 1 and e = 50 and pr = "''prize''" and sp = "''sponsor''"
      and sd = "''ab''" and now = 10 and ok = True and s = empty_db] r
  show ?thesis by simp
qed

subsection \<open>Handlers that come in during an await\<close>

text \<open>What the pieces of the handlers do guarantee, each on the store it runs on: a
  rejected publish writes nothing, the draw and the test of the rows never set
  \<open>announced\<close>, the due query leaves canceled giveaways out, /cancel writes only to a
  giveaway that is not ended, the join button passes its tests only for an open giveaway
  and its INSERT refuses a pair that is there. None of them looks again, after its await,
  at what it tested before.\<close>

lemma process_finish_failed:
  "\<not> send_ok env (g_id g) \<Longrightarrow> fst (process_finish cfg env now g a s) = s"
  by (cases a) (simp_all add: process_finish_def Let_def)

lemma process_begin_announced:
  "map_option announced (get_giveaway (fst (process_begin cfg env now g s)) i)
     = map_option announced (get_giveaway s i)"
proof (cases "draw_winners cfg env now g (participants_of s (g_id g)) s")
  case (Inl e)
  then show ?thesis
    by (cases "get_giveaway s (g_id g)") (simp_all add: process_begin_def Let_def)
next
  case (Inr s1)
  from draw_winners_InrD [OF Inr] obtain picked
    where s1: "s1 = mark_ended now (g_id g) (add_winners (g_id g) picked s)" by blast
  have "get_giveaway (add_winners (g_id g) picked s) j = get_giveaway s j" for j
    by (simp add: get_giveaway_def add_winners_def)
  then show ?thesis
    using Inr s1
    by (cases "get_giveaway s (g_id g)") (simp_all add: process_begin_def Let_def)
qed

lemma pending_not_canceled: "g \<in> set (pending now s) \<Longrightarrow> \<not> canceled g \<and> \<not> announced g"
  by (simp add: pending_def)

lemma cancel_cmd_ended:
  "get_giveaway s gid = Some g \<Longrightarrow> ended g \<Longrightarrow> fst (cancel_cmd cfg c gid reason now s) = s"
  by (simp add: cancel_cmd_fst)

lemma join_begin_open:
  assumes "join_begin c gid now s = Inr g"
  shows "get_giveaway s gid = Some g \<and> \<not> ended g \<and> \<not> canceled g \<and> now < end_time g"
  using assms by (auto simp: join_begin_def split: option.splits if_splits)

lemma join_finish_twice:
  assumes "has_participant s gid (from_id c)"
  shows "join_finish c gid g now m s
       = (s, [AnswerCbQuery c (if m then JoinAlready else JoinNotMember)])"
  using assms by (simp add: join_finish_def)

text \<open>
  C2, at the inputs where the code departs from it. First the giveaway that nobody
  joined: the tick at 60 ends it, the publish of its notice is rejected, and the tick at
  90, with the gateway up, publishes nothing and leaves \<open>announced = 0\<close>: the failed
  publish is not retried. Then two due giveaways with one participant each and a timer
  that fires again while the tick of 60 awaits its post for giveaway 1: the tick of 90
  reads its rows, giveaway 2 among them with \<open>ended = 0\<close>; the tick of 60 goes on, draws
  giveaway 2 and its post is rejected, so \<open>announced\<close> stays 0 with one winners row
  stored; the tick of 90 goes on and, instead of publishing the stored winners, draws
  giveaway 2 again from the row it read: a second winners row, \<open>ended_at\<close> written
  anew, and both rows published.
\<close>

theorem failed_publish_is_not_only_retried:
  "run demo_cfg (demo_lonely @ [Start (Tick (demo_env False None) 60), Resume 0]) empty_db
     = \<lparr>giveaways = [demo_row\<lparr>ended := True, ended_at := Some 60\<rparr>],
        participants = [], winner_rows = []\<rparr>
   \<and> snd (act demo_cfg (Start (Tick (demo_env True None) 90))
        \<lparr>store = \<lparr>giveaways = [demo_row\<lparr>ended := True, ended_at := Some 60\<rparr>],
                  participants = [], winner_rows = []\<rparr>, tasks = []\<rparr>)
     = [LogError ''AUTO_ANNOUNCE_NO_WINNERS_IN_DB'' 1]
   \<and> run demo_cfg (demo_lonely @ [Start (Tick (demo_env False None) 60), Resume 0,
                                 Start (Tick (demo_env True None) 90)]) empty_db
     = \<lparr>giveaways = [demo_row\<lparr>ended := True, ended_at := Some 60\<rparr>],
        participants = [], winner_rows = []\<rparr>
   \<and> get_giveaway (run demo_cfg demo_overlap empty_db) 2
       = Some (demo_row2\<lparr>ended := True, ended_at := Some 60\<rparr>)
   \<and> winners_of (run demo_cfg demo_overlap empty_db) 2 = [\<lparr>user_id = 21, name = ''B''\<rparr>]
   \<and> get_giveaway (run demo_cfg (demo_overlap @ [Resume 0]) empty_db) 2
       = Some (demo_row2\<lparr>ended := True, ended_at := Some 90\<rparr>)
   \<and> winners_of (run demo_cfg (demo_overlap @ [Resume 0]) empty_db) 2
       = [\<lparr>user_id = 21, name = ''B''\<rparr>, \<lparr>user_id = 21, name = ''B''\<rparr>]
   \<and> hd (snd (act demo_cfg (Resume 0)
        (exec demo_cfg (demo_overlap @ [Resume 0]) \<lparr>store = empty_db, tasks = []\<rparr>)))
       = SendMessage (- 100) (WinnersTextPublic [(''B'', 21), (''B'', 21)] ''gift'' ''sponsor'') True"
  by code_simp

text \<open>
  C4, at the inputs where the code departs from it. No UPDATE of the bot has a condition
  on a flag. The manual /announce on a giveaway announced at 60 posts the result again
  and writes \<open>announced_at = 200\<close>, run on its own or across its await. And the
  \<open>ended_at = 61\<close> that a /cancel wrote while the tick awaited its post for another
  giveaway is overwritten with 60 when the tick goes on with the row it read before.
\<close>

theorem manual_announce_overwrites_announced_at:
  "map_option announced (get_giveaway (run demo_cfg demo_announced empty_db) 1) = Some True
   \<and> map_option announced_at (get_giveaway (run demo_cfg demo_announced empty_db) 1)
       = Some (Some 60)
   \<and> map_option announced_at
        (get_giveaway (fst (announce_cmd demo_cfg demo_admin 1 200 True
           (run demo_cfg demo_announced empty_db))) 1)
       = Some (Some 200)
   \<and> hd (snd (announce_cmd demo_cfg demo_admin 1 200 True (run demo_cfg demo_announced empty_db)))
       = SendMessage (- 100) (WinnersTextPublic [(''B'', 21)] ''prize'' ''sponsor'') True
   \<and> map_option announced_at
        (get_giveaway (run demo_cfg
           (demo_announced @ [Start (Announce demo_admin 1 200 True), Resume 0]) empty_db) 1)
       = Some (Some 200)
   \<and> map_option ended_at (get_giveaway (run demo_cfg demo_cancel_in_tick empty_db) 2)
       = Some (Some 61)
   \<and> map_option ended_at
        (get_giveaway (run demo_cfg (demo_cancel_in_tick @ [Resume 0]) empty_db) 2)
       = Some (Some 60)"
  by code_simp

text \<open>
  C5, at the input where the code departs from it. Two due giveaways with one participant
  each. The tick of 60 draws giveaway 1 and awaits its post; an admin cancels giveaway 2,
  which is open, at 61; the post settles and the tick goes on to giveaway 2 with the row
  of its query, \<open>ended = 0\<close> and \<open>canceled = 0\<close>: it draws the canceled giveaway, writes
  \<open>ended_at = 60\<close>, publishes its winner and sets \<open>announced = 1\<close>.
\<close>

theorem cancel_during_publish_is_drawn_and_announced:
  "get_giveaway (run demo_cfg demo_cancel_in_tick empty_db) 2
     = Some (demo_row2\<lparr>ended := True, ended_at := Some 61, canceled := True,
               cancel_reason := Some ''late''\<rparr>)
   \<and> winners_of (run demo_cfg demo_cancel_in_tick empty_db) 2 = []
   \<and> get_giveaway (run demo_cfg (demo_cancel_in_tick @ [Resume 0, Resume 0]) empty_db) 2
     = Some (demo_row2\<lparr>ended := True, ended_at := Some 60, canceled := True,
               cancel_reason := Some ''late'', announced := True, announced_at := Some 60\<rparr>)
   \<and> winners_of (run demo_cfg (demo_cancel_in_tick @ [Resume 0, Resume 0]) empty_db) 2
     = [\<lparr>user_id = 21, name = ''B''\<rparr>]
   \<and> hd (snd (act demo_cfg (Resume 0)
        (exec demo_cfg (demo_cancel_in_tick @ [Resume 0]) \<lparr>store = empty_db, tasks = []\<rparr>)))
     = SendMessage (- 100) (WinnersTextPublic [(''B'', 21)] ''gift'' ''sponsor'') True"
  by code_simp

text \<open>
  C9, at the input where the code departs from it. A user presses the join button of an
  open giveaway at 49, before its close time; while the handler awaits the answer to its
  membership question an admin cancels the giveaway; the answer comes and the handler
  INSERTs the participant and answers with the success notice, for a giveaway that is
  canceled and ended: three participants where there were two.
\<close>

theorem join_lands_after_cancel:
  "get_giveaway (run demo_cfg demo_join_in_flight empty_db) 1
     = Some (demo_row\<lparr>ended := True, ended_at := Some 49, canceled := True,
               cancel_reason := Some ''late''\<rparr>)
   \<and> \<not> has_participant (run demo_cfg demo_join_in_flight empty_db) 1 3
   \<and> count_participants (run demo_cfg demo_join_in_flight empty_db) 1 = 2
   \<and> snd (act demo_cfg (Resume 0)
        (exec demo_cfg demo_join_in_flight \<lparr>store = empty_db, tasks = []\<rparr>))
     = [EditMessageText (- 100) 900 (GiveawayTextPublic ''prize'' ''sponsor'' 1 50 3),
        AnswerCbQuery demo_user_c JoinOk]
   \<and> has_participant (run demo_cfg (demo_join_in_flight @ [Resume 0]) empty_db) 1 3
   \<and> count_participants (run demo_cfg (demo_join_in_flight @ [Resume 0]) empty_db) 1 = 3
   \<and> get_giveaway (run demo_cfg (demo_join_in_flight @ [Resume 0]) empty_db) 1
     = Some (demo_row\<lparr>ended := True, ended_at := Some 49, canceled := True,
               cancel_reason := Some ''late''\<rparr>)"
  by code_simp


end
